theory Spec2Isabelle
  imports Main "HOL-Library.Word" "HOL-Library.Multiset" "HOL-Library.Sublist"
begin

unbundle bit_operations_syntax

section \<open>Machine types\<close>

text \<open>
  The C++ types of the source: \<open>uint8_t\<close>, \<open>uint32_t\<close> and \<open>int32_t\<close> are words
  (arithmetic wraps around; \<open>int32_t\<close> is read in two's complement), \<open>size_t\<close> is
  a 64-bit word where its width matters (the constructor) and a \<open>nat\<close> where it only
  counts or indexes cells of a table that exists.
\<close>

type_synonym u8 = "8 word"
type_synonym u32 = "32 word"
type_synonym i32 = "32 word"
type_synonym size_t = "64 word"

datatype error =
    DivideByZero      \<comment> \<open>\<open>h % 0\<close> on a table with fewer than three cells\<close>
  | AssertionFailed   \<comment> \<open>\<open>BOOST_ASSERT\<close> of \<open>operator-\<close>\<close>
  | ZlibError         \<comment> \<open>the decompressor rejects the component\<close>
  | IbltError         \<comment> \<open>\<open>IBLT::Error("Received IBF cannot be decoded!")\<close>\<close>
  | EmptyName         \<comment> \<open>\<open>name.get(-1)\<close> on a name without components\<close>
  | LengthError       \<comment> \<open>\<open>std::length_error\<close> or \<open>std::bad_alloc\<close> of \<open>vector::resize\<close>\<close>

section \<open>murmurHash3 (iblt.hpp)\<close>

definition ROTL32 :: "u32 \<Rightarrow> nat \<Rightarrow> u32" where
  "ROTL32 x r = (push_bit r x) OR (drop_bit (32 - r) x)"

definition c1 :: u32 where "c1 = 0xcc9e2d51"
definition c2 :: u32 where "c2 = 0x1b873593"

text \<open>One 4-byte block, read as the host (little-endian) \<open>uint32_t\<close>.\<close>

definition block32 :: "u8 \<Rightarrow> u8 \<Rightarrow> u8 \<Rightarrow> u8 \<Rightarrow> u32" where
  "block32 b0 b1 b2 b3 =
     ucast b0 OR push_bit 8 (ucast b1) OR push_bit 16 (ucast b2) OR push_bit 24 (ucast b3)"

definition mix_k1 :: "u32 \<Rightarrow> u32" where
  "mix_k1 k1 = ROTL32 (k1 * c1) 15 * c2"

definition mix_block :: "u32 \<Rightarrow> u32 \<Rightarrow> u32" where
  "mix_block h1 k1 = ROTL32 (h1 XOR mix_k1 k1) 13 * 5 + 0xe6546b64"

text \<open>The \<open>switch\<close> on \<open>size & 3\<close> with its fall-through cases, on the bytes left over.\<close>

fun murmur_tail :: "u32 \<Rightarrow> u8 list \<Rightarrow> u32" where
  "murmur_tail h1 [t0, t1, t2] =
     h1 XOR mix_k1 (push_bit 16 (ucast t2) XOR push_bit 8 (ucast t1) XOR ucast t0)"
| "murmur_tail h1 [t0, t1] = h1 XOR mix_k1 (push_bit 8 (ucast t1) XOR ucast t0)"
| "murmur_tail h1 [t0] = h1 XOR mix_k1 (ucast t0)"
| "murmur_tail h1 _ = h1"

fun murmur_body :: "u32 \<Rightarrow> u8 list \<Rightarrow> u32" where
  "murmur_body h1 (b0 # b1 # b2 # b3 # rest) =
     murmur_body (mix_block h1 (block32 b0 b1 b2 b3)) rest"
| "murmur_body h1 bs = murmur_tail h1 bs"

definition fmix :: "u32 \<Rightarrow> u32" where
  "fmix h =
     (let h1 = h XOR drop_bit 16 h;
          h2 = h1 * 0x85ebca6b;
          h3 = h2 XOR drop_bit 13 h2;
          h4 = h3 * 0xc2b2ae35
      in h4 XOR drop_bit 16 h4)"

definition murmurHash3 :: "u32 \<Rightarrow> u8 list \<Rightarrow> u32" where
  "murmurHash3 nHashSeed vDataToHash =
     fmix (murmur_body nHashSeed vDataToHash XOR word_of_nat (length vDataToHash))"

text \<open>The overload on a \<open>uint32_t\<close> value hashes its four bytes in memory order.\<close>

definition bytes_of_u32 :: "u32 \<Rightarrow> u8 list" where
  "bytes_of_u32 v =
     [ucast v, ucast (drop_bit 8 v), ucast (drop_bit 16 v), ucast (drop_bit 24 v)]"

definition murmurHash3_u32 :: "u32 \<Rightarrow> u32 \<Rightarrow> u32" where
  "murmurHash3_u32 nHashSeed v = murmurHash3 nHashSeed (bytes_of_u32 v)"

definition N_HASH :: nat where "N_HASH = 3"
definition N_HASHCHECK :: u32 where "N_HASHCHECK = 11"

section \<open>HashTableEntry and IBLT (iblt.hpp)\<close>

record HashTableEntry =
  count :: i32
  keySum :: u32
  keyCheck :: u32

definition isPure :: "HashTableEntry \<Rightarrow> bool" where
  "isPure e =
     (if count e = 1 \<or> count e = - 1
      then keyCheck e = murmurHash3_u32 N_HASHCHECK (keySum e)
      else False)"

definition isEmpty :: "HashTableEntry \<Rightarrow> bool" where
  "isEmpty e = (count e = 0 \<and> keySum e = 0 \<and> keyCheck e = 0)"

text \<open>An IBLT is its \<open>m_hashTable\<close>. A value-initialised entry is all zero.\<close>

type_synonym IBLT = "HashTableEntry list"

definition zeroEntry :: HashTableEntry where
  "zeroEntry = \<lparr>count = 0, keySum = 0, keyCheck = 0\<rparr>"

text \<open>
  The constructor \<open>IBLT(size_t expectedNumEntries)\<close>: \<open>nEntries\<close> is computed in
  \<open>size_t\<close> arithmetic, then \<open>m_hashTable.resize(nEntries)\<close>. \<open>resize\<close> throws
  when \<open>nEntries\<close> is above what the vector can be resized to, and no table is made:
  \<open>std::length_error\<close> above the vector's \<open>max_size()\<close>, \<open>std::bad_alloc\<close> already
  below it where the memory is short. That limit is the parameter \<open>max_size\<close>. Up
  to it \<open>resize\<close> leaves \<open>nEntries\<close> value-initialised entries, the table
  \<open>new_table\<close>.
\<close>

definition nEntries_of :: "size_t \<Rightarrow> size_t" where
  "nEntries_of expectedNumEntries =
     (let nEntries = expectedNumEntries + expectedNumEntries div 2;
          remainder = nEntries mod 3
      in if remainder \<noteq> 0 then nEntries + (3 - remainder) else nEntries)"

definition new_table :: "size_t \<Rightarrow> IBLT" where
  "new_table expectedNumEntries = replicate (unat (nEntries_of expectedNumEntries)) zeroEntry"

definition IBLT_new :: "nat \<Rightarrow> size_t \<Rightarrow> error + IBLT" where
  "IBLT_new max_size expectedNumEntries =
     (if max_size < unat (nEntries_of expectedNumEntries) then Inl LengthError
      else Inr (new_table expectedNumEntries))"

text \<open>
  \<open>update(plusOrMinus, key)\<close>: one cell in each of the three sub-tables. With fewer
  than three cells \<open>bucketsPerHash\<close> is 0 and \<open>h % bucketsPerHash\<close> divides by zero.
\<close>

definition update_entry :: "i32 \<Rightarrow> u32 \<Rightarrow> HashTableEntry \<Rightarrow> HashTableEntry" where
  "update_entry plusOrMinus key entry =
     entry\<lparr>count := count entry + plusOrMinus,
           keySum := keySum entry XOR key,
           keyCheck := keyCheck entry XOR murmurHash3_u32 N_HASHCHECK key\<rparr>"

definition cell_index :: "nat \<Rightarrow> nat \<Rightarrow> u32 \<Rightarrow> nat" where
  "cell_index bucketsPerHash i key =
     i * bucketsPerHash + unat (murmurHash3_u32 (word_of_nat i) key) mod bucketsPerHash"

definition update_step :: "i32 \<Rightarrow> u32 \<Rightarrow> nat \<Rightarrow> IBLT \<Rightarrow> IBLT" where
  "update_step plusOrMinus key i t =
     (let idx = cell_index (length t div N_HASH) i key
      in t[idx := update_entry plusOrMinus key (t ! idx)])"

definition update_cells :: "i32 \<Rightarrow> u32 \<Rightarrow> IBLT \<Rightarrow> IBLT" where
  "update_cells plusOrMinus key t = fold (update_step plusOrMinus key) [0 ..< N_HASH] t"

definition update :: "i32 \<Rightarrow> u32 \<Rightarrow> IBLT \<Rightarrow> error + IBLT" where
  "update plusOrMinus key t =
     (if length t div N_HASH = 0 then Inl DivideByZero
      else Inr (update_cells plusOrMinus key t))"

definition INSERT :: i32 where "INSERT = 1"
definition ERASE :: i32 where "ERASE = - 1"

definition insert_key :: "u32 \<Rightarrow> IBLT \<Rightarrow> error + IBLT" where
  "insert_key key t = update INSERT key t"

text \<open>
  \<open>hash0\<close>, \<open>hash1\<close>, \<open>hash2\<close>, \<open>chkPeer\<close> and \<open>badPeers\<close>. Their \<open>size_t key\<close>
  parameter is only ever given a \<open>uint32_t\<close> (by \<open>erase\<close> and by \<open>listEntries\<close>).
\<close>

definition chkPeer :: "IBLT \<Rightarrow> u32 \<Rightarrow> nat \<Rightarrow> bool" where
  "chkPeer t key idx =
     (let hte = t ! idx in isEmpty hte \<or> (isPure hte \<and> keySum hte \<noteq> key))"

definition badPeers_cells :: "IBLT \<Rightarrow> u32 \<Rightarrow> bool" where
  "badPeers_cells t key =
     (let stsize = length t div N_HASH
      in chkPeer t key (cell_index stsize 0 key) \<or> chkPeer t key (cell_index stsize 1 key) \<or>
         chkPeer t key (cell_index stsize 2 key))"

definition badPeers :: "IBLT \<Rightarrow> u32 \<Rightarrow> error + bool" where
  "badPeers t key =
     (if length t div N_HASH = 0 then Inl DivideByZero else Inr (badPeers_cells t key))"

definition erase :: "u32 \<Rightarrow> IBLT \<Rightarrow> error + IBLT" where
  "erase key t =
     (case badPeers t key of
        Inl e \<Rightarrow> Inl e
      | Inr True \<Rightarrow> Inr t
      | Inr False \<Rightarrow> update ERASE key t)"

text \<open>\<open>operator-\<close>: the assertion on the sizes, then the cells pairwise.\<close>

definition sub_entry :: "HashTableEntry \<Rightarrow> HashTableEntry \<Rightarrow> HashTableEntry" where
  "sub_entry e1 e2 =
     \<lparr>count = count e1 - count e2,
      keySum = keySum e1 XOR keySum e2,
      keyCheck = keyCheck e1 XOR keyCheck e2\<rparr>"

definition minus_iblt :: "IBLT \<Rightarrow> IBLT \<Rightarrow> error + IBLT" where
  "minus_iblt t other =
     (if length t \<noteq> length other then Inl AssertionFailed
      else Inr (map (\<lambda>i. sub_entry (t ! i) (other ! i)) [0 ..< length t]))"

text \<open>
  \<open>appendToName\<close>: twelve bytes a cell, least significant byte first; the whole
  buffer goes through the zlib compressor and becomes one name component. The
  compressor and the decompressor belong to the zlib library: they are parameters
  (\<open>deflate\<close>, and \<open>inflate\<close>, which gives \<open>None\<close> where the library throws).
  \<open>count\<close> is signed, so its \<open>>>\<close> is the arithmetic shift.
\<close>

type_synonym Component = "u8 list"
type_synonym Name = "Component list"

definition entry_bytes :: "HashTableEntry \<Rightarrow> u8 list" where
  "entry_bytes e =
     [ucast (count e), ucast (signed_drop_bit 8 (count e)),
      ucast (signed_drop_bit 16 (count e)), ucast (signed_drop_bit 24 (count e)),
      ucast (keySum e), ucast (drop_bit 8 (keySum e)),
      ucast (drop_bit 16 (keySum e)), ucast (drop_bit 24 (keySum e)),
      ucast (keyCheck e), ucast (drop_bit 8 (keyCheck e)),
      ucast (drop_bit 16 (keyCheck e)), ucast (drop_bit 24 (keyCheck e))]"

definition table_bytes :: "IBLT \<Rightarrow> u8 list" where
  "table_bytes t = concat (map entry_bytes t)"

definition appendToName :: "(u8 list \<Rightarrow> u8 list) \<Rightarrow> IBLT \<Rightarrow> Name \<Rightarrow> Name" where
  "appendToName deflate t name = name @ [deflate (table_bytes t)]"

text \<open>
  \<open>extractValueFromName\<close>: \<open>n = size / 4\<close> words are read, so up to three trailing
  bytes are not looked at.
\<close>

definition word_at :: "u8 list \<Rightarrow> nat \<Rightarrow> u32" where
  "word_at ibltValues i =
     push_bit 24 (ucast (ibltValues ! (i + 3))) + push_bit 16 (ucast (ibltValues ! (i + 2))) +
     push_bit 8 (ucast (ibltValues ! (i + 1))) + ucast (ibltValues ! i)"

definition extractValueFromName ::
  "(u8 list \<Rightarrow> u8 list option) \<Rightarrow> Component \<Rightarrow> error + u32 list" where
  "extractValueFromName inflate ibltName =
     (case inflate ibltName of
        None \<Rightarrow> Inl ZlibError
      | Some ibltValues \<Rightarrow>
          (let n = length ibltValues div 4
           in Inr (map (\<lambda>j. word_at ibltValues (4 * j)) [0 ..< n])))"

text \<open>
  \<open>initialize\<close>, on the table \<open>t\<close> of the object it is called on: a cell whose count
  word is 0 is not written and keeps what \<open>t\<close> had there.
\<close>

definition initialize ::
  "(u8 list \<Rightarrow> u8 list option) \<Rightarrow> IBLT \<Rightarrow> Component \<Rightarrow> error + IBLT" where
  "initialize inflate t ibltName =
     (case extractValueFromName inflate ibltName of
        Inl e \<Rightarrow> Inl e
      | Inr vals \<Rightarrow>
          if 3 * length t \<noteq> length vals then Inl IbltError
          else Inr (map (\<lambda>i. if vals ! (i * 3) \<noteq> 0
                              then \<lparr>count = vals ! (i * 3), keySum = vals ! (i * 3 + 1),
                                    keyCheck = vals ! (i * 3 + 2)\<rparr>
                              else t ! i) [0 ..< length t]))"

text \<open>
  \<open>listEntries\<close>. The frame of a call holds the object the method is called on
  (\<open>self\<close>, which the method may only read), its local copy \<open>peeled\<close>, the two output
  sets and the loop flag. \<open>visit\<close> is the body of the \<open>for\<close> loop at one index,
  \<open>scan\<close> one run of the \<open>for\<close> loop, \<open>peel_loop\<close> the \<open>do ... while\<close> loop, which
  need not terminate.
\<close>

record frame =
  self :: IBLT
  peeled :: IBLT
  positive :: "u32 set"
  negative :: "u32 set"
  peeledSomething :: bool

datatype flow = Fault error | Return bool frame | Continue frame

definition visit :: "nat \<Rightarrow> frame \<Rightarrow> flow" where
  "visit i f =
     (let entry = peeled f ! i in
      if isPure entry then
        (case badPeers (peeled f) (keySum entry) of
           Inl e \<Rightarrow> Fault e
         | Inr True \<Rightarrow> Return False f
         | Inr False \<Rightarrow>
             (let f1 = (if count entry = 1
                        then f\<lparr>positive := insert (keySum entry) (positive f)\<rparr>
                        else f\<lparr>negative := insert (keySum entry) (negative f)\<rparr>)
              in case update (- count entry) (keySum entry) (peeled f1) of
                   Inl e \<Rightarrow> Fault e
                 | Inr t \<Rightarrow> Continue (f1\<lparr>peeled := t, peeledSomething := True\<rparr>)))
      else Continue f)"

fun scan :: "nat list \<Rightarrow> frame \<Rightarrow> flow" where
  "scan [] f = Continue f"
| "scan (i # idxs) f =
     (case visit i f of
        Continue f' \<Rightarrow> scan idxs f'
      | Return b f' \<Rightarrow> Return b f'
      | Fault e \<Rightarrow> Fault e)"

partial_function (option) peel_loop :: "frame \<Rightarrow> (error + bool \<times> frame) option" where
  "peel_loop f =
     (case scan [0 ..< length (peeled f)] (f\<lparr>peeledSomething := False\<rparr>) of
        Fault e \<Rightarrow> Some (Inl e)
      | Return b f' \<Rightarrow> Some (Inr (b, f'))
      | Continue f' \<Rightarrow>
          if peeledSomething f' then peel_loop f' else Some (Inr (True, f')))"

definition listEntries ::
  "IBLT \<Rightarrow> u32 set \<Rightarrow> u32 set \<Rightarrow> (error + bool \<times> frame) option" where
  "listEntries t pos neg =
     peel_loop \<lparr>self = t, peeled = t, positive = pos, negative = neg,
                peeledSomething = False\<rparr>"

section \<open>The spec's size of a new table\<close>

text \<open>The spec's rule, on unbounded numbers: the ceiling of 1.5 times the expected
  number of entries, rounded up to a multiple of 3.\<close>

definition spec_cells :: "nat \<Rightarrow> nat" where
  "spec_cells n = (((3 * n + 1) div 2 + 2) div 3) * 3"

text \<open>The constructor's computation without the word size.\<close>

definition nEntries_nat :: "nat \<Rightarrow> nat" where
  "nEntries_nat n = (let k = n + n div 2 in if k mod 3 \<noteq> 0 then k + (3 - k mod 3) else k)"

text \<open>The cells that \<open>update\<close> writes for a key.\<close>

definition touched :: "IBLT \<Rightarrow> u32 \<Rightarrow> nat \<Rightarrow> bool" where
  "touched t k j =
     (let b = length t div N_HASH
      in j = cell_index b 0 k \<or> j = cell_index b 1 k \<or> j = cell_index b 2 k)"

text \<open>
  The difference \<open>IBLT(1) - (IBLT(1) after insert(5))\<close>: three cells, each holding
  key 5 with count -1.
\<close>

definition minus_five :: IBLT where
  "minus_five =
     replicate 3 \<lparr>count = - 1, keySum = 5, keyCheck = murmurHash3_u32 N_HASHCHECK 5\<rparr>"

text \<open>\<open>IBLT(1)\<close> after \<open>insert(5)\<close>.\<close>

definition plus_five :: IBLT where
  "plus_five =
     replicate 3 \<lparr>count = 1, keySum = 5, keyCheck = murmurHash3_u32 N_HASHCHECK 5\<rparr>"

text \<open>A table built by inserting the keys of a list, one \<open>insert\<close> after the other.\<close>

fun insert_all :: "u32 list \<Rightarrow> IBLT \<Rightarrow> error + IBLT" where
  "insert_all [] t = Inr t"
| "insert_all (k # ks) t =
     (case insert_key k t of Inl e \<Rightarrow> Inl e | Inr t' \<Rightarrow> insert_all ks t')"

text \<open>The cell that holds the one key \<open>k\<close> with count \<open>c\<close>.\<close>

definition single :: "i32 \<Rightarrow> u32 \<Rightarrow> HashTableEntry" where
  "single c k = \<lparr>count = c, keySum = k, keyCheck = murmurHash3_u32 N_HASHCHECK k\<rparr>"

text \<open>
  The default table of the engine, \<open>IBLT(85)\<close>, after \<open>insert(271)\<close> and
  \<open>insert(564)\<close>: the two keys have the same cell in each sub-table (17, 51, 128).
\<close>

definition colliding_table :: IBLT where
  "colliding_table = update_cells 1 564 (update_cells 1 271 (new_table 85))"

text \<open>Three cells of which only the first holds key 5: its peers are empty.\<close>

definition lonely_five :: IBLT where
  "lonely_five = [single 1 5, zeroEntry, zeroEntry]"

text \<open>The three words of a cell on the wire, and the words read from a payload.\<close>

definition entry_words :: "HashTableEntry \<Rightarrow> u32 list" where
  "entry_words e = [count e, keySum e, keyCheck e]"

definition words_of :: "u8 list \<Rightarrow> u32 list" where
  "words_of ibltValues = map (\<lambda>j. word_at ibltValues (4 * j)) [0 ..< length ibltValues div 4]"

text \<open>
  \<open>IBLT(1)\<close> after \<open>insert(1)\<close> and \<open>insert(2)\<close>, then after \<open>erase(3)\<close>, then after
  \<open>erase(4)\<close>. The check sums are the XOR of the hashes (seed 11) of the keys.
\<close>

definition two_keys :: IBLT where
  "two_keys = replicate 3 \<lparr>count = 2, keySum = 3, keyCheck = 583184179\<rparr>"

definition three_keys :: IBLT where
  "three_keys = replicate 3 \<lparr>count = 1, keySum = 0, keyCheck = 161451740\<rparr>"

definition unbalanced :: IBLT where
  "unbalanced = replicate 3 \<lparr>count = 0, keySum = 4, keyCheck = 2898102721\<rparr>"

section \<open>Names and the subscription table (syncps.hpp)\<close>

text \<open>
  A name is its list of components, a component its bytes. The order of names is the
  one of the ndn-cxx library (\<open>Name::compare\<close>, the canonical order): components are
  compared by length and then byte by byte, names component by component, and a
  proper prefix comes before its extensions.
\<close>

fun bytes_less :: "u8 list \<Rightarrow> u8 list \<Rightarrow> bool" where
  "bytes_less [] bs = (bs \<noteq> [])"
| "bytes_less (a # as) [] = False"
| "bytes_less (a # as) (b # bs) = (a < b \<or> (a = b \<and> bytes_less as bs))"

definition component_less :: "Component \<Rightarrow> Component \<Rightarrow> bool" where
  "component_less a b = (length a < length b \<or> (length a = length b \<and> bytes_less a b))"

fun name_less :: "Name \<Rightarrow> Name \<Rightarrow> bool" where
  "name_less [] n = (n \<noteq> [])"
| "name_less (a # as) [] = False"
| "name_less (a # as) (b # bs) = (component_less a b \<or> (a = b \<and> name_less as bs))"

fun isPrefixOf :: "Name \<Rightarrow> Name \<Rightarrow> bool" where
  "isPrefixOf [] n = True"
| "isPrefixOf (a # as) [] = False"
| "isPrefixOf (a # as) (b # bs) = (a = b \<and> isPrefixOf as bs)"

text \<open>
  \<open>std::map<const Name, UpdateCb>\<close>: the entries in the order of their keys.
  \<open>map_assign\<close> is \<open>m[topic] = cb\<close>, \<open>lower_bound\<close> the position of the first entry
  whose key is not less than the name (the length of the list for \<open>end()\<close>).
\<close>

fun map_assign :: "Name \<Rightarrow> 'cb \<Rightarrow> (Name \<times> 'cb) list \<Rightarrow> (Name \<times> 'cb) list" where
  "map_assign k v [] = [(k, v)]"
| "map_assign k v ((k', v') # rest) =
     (if name_less k' k then (k', v') # map_assign k v rest
      else if name_less k k' then (k, v) # (k', v') # rest
      else (k', v) # rest)"

definition lower_bound :: "(Name \<times> 'cb) list \<Rightarrow> Name \<Rightarrow> nat" where
  "lower_bound subs nm = length (takeWhile (\<lambda>e. name_less (fst e) nm) subs)"

text \<open>
  The lookup of \<open>onValidData\<close>: the entry at \<open>lower_bound\<close> if its topic is a prefix
  of the name, else the entry just before it if that one's topic is a prefix.
\<close>

definition find_subscription :: "(Name \<times> 'cb) list \<Rightarrow> Name \<Rightarrow> (Name \<times> 'cb) option" where
  "find_subscription subs nm =
     (let sub = lower_bound subs nm in
      if sub \<noteq> length subs \<and> isPrefixOf (fst (subs ! sub)) nm then Some (subs ! sub)
      else if sub \<noteq> 0 \<and> isPrefixOf (fst (subs ! (sub - 1))) nm then Some (subs ! (sub - 1))
      else None)"

text \<open>The spec's rule: of the entries whose topic is a prefix of the name, the one
  with the longest topic.\<close>

definition longest_prefix_match :: "(Name \<times> 'cb) list \<Rightarrow> Name \<Rightarrow> (Name \<times> 'cb) option" where
  "longest_prefix_match subs nm =
     foldl (\<lambda>best e.
              if isPrefixOf (fst e) nm \<and>
                 (case best of None \<Rightarrow> True | Some b \<Rightarrow> length (fst b) < length (fst e))
              then Some e else best)
           None subs"

section \<open>The sync engine (syncps.hpp)\<close>

text \<open>
  A publication is an \<open>ndn::Data\<close>: its name and its wire encoding. A \<open>PubPtr\<close> is
  the identity of a shared object made by \<open>make_shared\<close>: its index in \<open>objects\<close>.
  Times are in milliseconds. The scheduler of the library is the list of its pending
  events, in the order of their expiry (first scheduled first among equals);
  \<open>m_scheduledSyncInterestId\<close> holds the expiry of the one pending re-issue of the
  sync interest, which a new assignment cancels.
\<close>

record Publication =
  pubName :: Name
  wire :: "u8 list"

type_synonym PubPtr = nat

datatype timer =
    ClearLive PubPtr          \<comment> \<open>\<open>m_active[p] &=~ 1U\<close>\<close>
  | EraseHash u32             \<comment> \<open>\<open>m_iblt.erase(hash); sendSyncInterestSoon()\<close>\<close>
  | RemoveFromActive PubPtr   \<comment> \<open>\<open>removeFromActive(p)\<close>\<close>

record 'cb SyncPubsub =
  m_expectedNumEntries :: u32
  m_iblt :: IBLT
  objects :: "Publication list"
  m_active :: "PubPtr \<rightharpoonup> u8"
  m_hash2pub :: "u32 \<rightharpoonup> PubPtr"
  m_subscription :: "(Name \<times> 'cb) list"
  m_scheduler :: "(nat \<times> timer) list"
  m_scheduledSyncInterestId :: "nat option"
  clock :: nat
  m_isExpired :: "nat \<Rightarrow> Publication \<Rightarrow> bool"
  m_filterPubs :: "Publication list \<Rightarrow> PubPtr list \<Rightarrow> PubPtr list \<Rightarrow> PubPtr list"
  m_publications :: u32
  m_delivering :: bool
  delivered :: "('cb \<times> PubPtr) list"   \<comment> \<open>the calls \<open>sub->second(*p)\<close> made so far\<close>

definition maxPubSize :: nat where "maxPubSize = 1300"
definition maxPubLifetime :: nat where "maxPubLifetime = 1000"
definition maxClockSkew :: nat where "maxClockSkew = 1000"
definition syncpsContent :: nat where "syncpsContent = 129"
definition tlv_Data :: nat where "tlv_Data = 6"

definition subscribeTo :: "Name \<Rightarrow> 'cb \<Rightarrow> 'cb SyncPubsub \<Rightarrow> 'cb SyncPubsub" where
  "subscribeTo topic cb st = st\<lparr>m_subscription := map_assign topic cb (m_subscription st)\<rparr>"

definition hashPub :: "Publication \<Rightarrow> u32" where
  "hashPub pub = murmurHash3 N_HASHCHECK (wire pub)"

definition isKnown_hash :: "'cb SyncPubsub \<Rightarrow> u32 \<Rightarrow> bool" where
  "isKnown_hash st h = (m_hash2pub st h \<noteq> None)"

definition isKnown :: "'cb SyncPubsub \<Rightarrow> Publication \<Rightarrow> bool" where
  "isKnown st pub = isKnown_hash st (hashPub pub)"

text \<open>\<open>m_scheduler.schedule(after, cb)\<close>.\<close>

fun enqueue :: "nat \<times> timer \<Rightarrow> (nat \<times> timer) list \<Rightarrow> (nat \<times> timer) list" where
  "enqueue ev [] = [ev]"
| "enqueue ev (x # q) = (if fst ev < fst x then ev # x # q else x # enqueue ev q)"

definition schedule :: "nat \<Rightarrow> timer \<Rightarrow> 'cb SyncPubsub \<Rightarrow> 'cb SyncPubsub" where
  "schedule after cb st = st\<lparr>m_scheduler := enqueue (clock st + after, cb) (m_scheduler st)\<rparr>"

definition addToActive ::
  "Publication \<Rightarrow> bool \<Rightarrow> 'cb SyncPubsub \<Rightarrow> error + PubPtr \<times> 'cb SyncPubsub" where
  "addToActive pub localPub st =
     (let hash = hashPub pub;
          p = length (objects st);
          st1 = st\<lparr>objects := objects st @ [pub],
                   m_active := (m_active st)(p \<mapsto> (if localPub then 3 else 1)),
                   m_hash2pub := (m_hash2pub st)(hash \<mapsto> p)\<rparr>
      in case insert_key hash (m_iblt st1) of
           Inl e \<Rightarrow> Inl e
         | Inr t \<Rightarrow>
             Inr (p, schedule (maxPubLifetime * 2) (RemoveFromActive p)
                      (schedule (maxPubLifetime + maxClockSkew) (EraseHash hash)
                        (schedule maxPubLifetime (ClearLive p) (st1\<lparr>m_iblt := t\<rparr>)))))"

definition removeFromActive :: "PubPtr \<Rightarrow> 'cb SyncPubsub \<Rightarrow> 'cb SyncPubsub" where
  "removeFromActive p st =
     st\<lparr>m_active := (m_active st)(p := None),
        m_hash2pub := (m_hash2pub st)(hashPub (objects st ! p) := None)\<rparr>"

text \<open>\<open>sendSyncInterestSoon\<close>: the re-issue is due in 3 ms.\<close>

definition sendSyncInterestSoon :: "'cb SyncPubsub \<Rightarrow> 'cb SyncPubsub" where
  "sendSyncInterestSoon st = st\<lparr>m_scheduledSyncInterestId := Some (clock st + 3)\<rparr>"

text \<open>The three callbacks that \<open>addToActive\<close> schedules. \<open>m_active[p]\<close> makes an entry
  of value 0 if there is none.\<close>

definition fire :: "timer \<Rightarrow> 'cb SyncPubsub \<Rightarrow> error + 'cb SyncPubsub" where
  "fire cb st =
     (case cb of
        ClearLive p \<Rightarrow>
          Inr (st\<lparr>m_active := (m_active st)
                   (p \<mapsto> (case m_active st p of None \<Rightarrow> 0 | Some v \<Rightarrow> v) AND NOT 1)\<rparr>)
      | EraseHash hash \<Rightarrow>
          (case erase hash (m_iblt st) of
             Inl e \<Rightarrow> Inl e
           | Inr t \<Rightarrow> Inr (sendSyncInterestSoon (st\<lparr>m_iblt := t\<rparr>)))
      | RemoveFromActive p \<Rightarrow> Inr (removeFromActive p st))"

text \<open>
  \<open>handleInterest\<close>. \<open>classify\<close> is the loop over \<open>have\<close> (a \<open>std::set\<close>, so in
  increasing order), \<open>pack\<close> the loop that fills the block; \<open>blockSize\<close> is the
  library's \<open>Block::size\<close> of the block built so far. The result is the returned
  flag and the Data packets given to \<open>sendSyncData\<close>. Every exception of
  \<open>initialize\<close> is caught. \<open>IBLT iblt(m_expectedNumEntries)\<close> makes the table
  \<open>new_table\<close>: it is of the size of the engine's own table, which exists.
\<close>

fun classify :: "'cb SyncPubsub \<Rightarrow> u32 list \<Rightarrow> PubPtr list \<times> PubPtr list" where
  "classify st [] = ([], [])"
| "classify st (hash # rest) =
     (let (pOurs, pOthers) = classify st rest in
      case m_hash2pub st hash of
        None \<Rightarrow> (pOurs, pOthers)
      | Some h \<Rightarrow>
          (case m_active st h of
             None \<Rightarrow> (pOurs, pOthers)
           | Some v \<Rightarrow>
               if v AND 1 \<noteq> 0
               then (if v AND 2 \<noteq> 0 then (h # pOurs, pOthers) else (pOurs, h # pOthers))
               else (pOurs, pOthers)))"

fun pack :: "(u8 list list \<Rightarrow> nat) \<Rightarrow> u8 list list \<Rightarrow> u8 list list \<Rightarrow> u8 list list" where
  "pack blockSize pubs [] = pubs"
| "pack blockSize pubs (w # ws) =
     (let pubs' = pubs @ [w] in
      if blockSize pubs' \<ge> maxPubSize then pubs' else pack blockSize pubs' ws)"

definition handleInterest ::
  "(u8 list \<Rightarrow> u8 list option) \<Rightarrow> (u8 list list \<Rightarrow> nat) \<Rightarrow> 'cb SyncPubsub \<Rightarrow> Name \<Rightarrow>
     (error + bool \<times> (Name \<times> u8 list list) list) option" where
  "handleInterest inflate blockSize st name =
     (if name = [] then Some (Inl EmptyName)
      else case initialize inflate (new_table (ucast (m_expectedNumEntries st))) (last name) of
        Inl e \<Rightarrow> Some (Inr (True, []))
      | Inr iblt \<Rightarrow>
          (case minus_iblt (m_iblt st) iblt of
             Inl e \<Rightarrow> Some (Inl e)
           | Inr d \<Rightarrow>
               (case listEntries d {} {} of
                  None \<Rightarrow> None
                | Some (Inl e) \<Rightarrow> Some (Inl e)
                | Some (Inr (b, f)) \<Rightarrow>
                    (let (pOurs, pOthers) = classify st (sorted_list_of_set (positive f));
                         pOurs' = m_filterPubs st (objects st) pOurs pOthers
                     in if pOurs' = [] then Some (Inr (False, []))
                        else Some (Inr (True,
                               [(name, pack blockSize [] (map (\<lambda>p. wire (objects st ! p)) pOurs'))]))))))"

text \<open>
  The filter and the expiry test that the clients install (CRshim.hpp).
  \<open>toTimestamp\<close> is the library's decoding of a timestamp component; \<open>std::sort\<close>
  leaves the order of equal timestamps open, here they keep their order.
\<close>

definition filterPubs ::
  "(Component \<Rightarrow> int) \<Rightarrow> Publication list \<Rightarrow> PubPtr list \<Rightarrow> PubPtr list \<Rightarrow> PubPtr list" where
  "filterPubs toTimestamp objs pOurs pOthers =
     (if pOurs = [] then pOurs
      else (let key = (\<lambda>p. - toTimestamp (last (pubName (objs ! p))));
                ours = (if length pOurs > 1 then sort_key key pOurs else pOurs);
                others = sort_key key pOthers
            in ours @ others))"

definition isExpired :: "(Component \<Rightarrow> int) \<Rightarrow> nat \<Rightarrow> Publication \<Rightarrow> bool" where
  "isExpired toTimestamp t p =
     (let dt = int t - toTimestamp (last (pubName p))
      in dt \<ge> int (maxPubLifetime + maxClockSkew) \<or> dt \<le> - int maxClockSkew)"

text \<open>
  \<open>onValidData\<close>, up to \<open>m_delivering = false\<close>: the content is the type of the
  block and its elements, each with its type. \<open>onValidData_element\<close> is the body of
  the loop; the call of the subscriber's callback is recorded in \<open>delivered\<close>.
\<close>

definition onValidData_element ::
  "nat \<times> Publication \<Rightarrow> 'cb SyncPubsub \<Rightarrow> error + 'cb SyncPubsub" where
  "onValidData_element e st =
     (if fst e \<noteq> tlv_Data then Inr st
      else (let pub = snd e in
            if m_isExpired st (clock st) pub \<or> isKnown st pub then Inr st
            else case addToActive pub False st of
                   Inl err \<Rightarrow> Inl err
                 | Inr (p, st') \<Rightarrow>
                     (case find_subscription (m_subscription st') (pubName (objects st' ! p)) of
                        Some sub \<Rightarrow> Inr (st'\<lparr>delivered := delivered st' @ [(snd sub, p)]\<rparr>)
                      | None \<Rightarrow> Inr st')))"

fun onValidData_elements ::
  "(nat \<times> Publication) list \<Rightarrow> 'cb SyncPubsub \<Rightarrow> error + 'cb SyncPubsub" where
  "onValidData_elements [] st = Inr st"
| "onValidData_elements (e # es) st =
     (case onValidData_element e st of
        Inl err \<Rightarrow> Inl err
      | Inr st' \<Rightarrow> onValidData_elements es st')"

definition onValidData ::
  "nat \<times> (nat \<times> Publication) list \<Rightarrow> 'cb SyncPubsub \<Rightarrow> error + 'cb SyncPubsub" where
  "onValidData content st =
     (if fst content \<noteq> syncpsContent then Inr st
      else case onValidData_elements (snd content) (st\<lparr>m_delivering := True\<rparr>) of
             Inl err \<Rightarrow> Inl err
           | Inr st' \<Rightarrow> Inr (st'\<lparr>m_delivering := False\<rparr>))"

text \<open>
  An engine for examples: three cells, nothing published, nothing subscribed, the
  clock at 0, the clients' filter and expiry test (with every timestamp 0).
\<close>

definition example_engine :: "nat SyncPubsub" where
  "example_engine =
     \<lparr>m_expectedNumEntries = 1, m_iblt = new_table 1, objects = [], m_active = Map.empty,
      m_hash2pub = Map.empty, m_subscription = [], m_scheduler = [],
      m_scheduledSyncInterestId = None, clock = 0, m_isExpired = isExpired (\<lambda>c. 0),
      m_filterPubs = filterPubs (\<lambda>c. 0), m_publications = 0, m_delivering = False,
      delivered = []\<rparr>"

text \<open>Two publications whose wire encodings have the same murmurHash3 under seed 11.\<close>

definition pub_p :: Publication where
  "pub_p = \<lparr>pubName = [[112], [1]], wire = [6, 0, 0, 0, 0, 0, 0, 0]\<rparr>"

definition pub_q :: Publication where
  "pub_q = \<lparr>pubName = [[113], [1]], wire = [6, 1, 0, 0, 81, 36, 199, 4]\<rparr>"

text \<open>The example engine with key 5 in its table.\<close>

definition engine_five :: "nat SyncPubsub" where
  "engine_five = example_engine\<lparr>m_iblt := plus_five\<rparr>"

text \<open>The topics \<open>/a\<close> and \<open>/a/b\<close>, a publication named \<open>/a/c/<t>\<close>, and the example
  engine subscribed to both topics (callbacks 10 and 20).\<close>

definition topic_a :: Name where "topic_a = [[97]]"

definition topic_ab :: Name where "topic_ab = [[97], [98]]"

definition pub_acx :: Publication where
  "pub_acx = \<lparr>pubName = [[97], [99], [1]], wire = []\<rparr>"

definition subscribed_engine :: "nat SyncPubsub" where
  "subscribed_engine = subscribeTo topic_ab 20 (subscribeTo topic_a 10 example_engine)"

section \<open>The engine in logical time (syncps.hpp)\<close>

text \<open>
  The scheduler queue \<open>m_scheduler\<close> holds the timers of \<open>addToActive\<close> with their
  deadlines (milliseconds of the clock), in the order in which the library's scheduler
  runs them: by deadline, and timers of equal deadline in the order in which they
  were scheduled (\<open>enqueue\<close>). The three projections list what is still due.
\<close>

fun erase_keys :: "(nat \<times> timer) list \<Rightarrow> u32 list" where
  "erase_keys [] = []"
| "erase_keys ((d, EraseHash h) # q) = h # erase_keys q"
| "erase_keys (ev # q) = erase_keys q"

fun remove_ptrs :: "(nat \<times> timer) list \<Rightarrow> PubPtr list" where
  "remove_ptrs [] = []"
| "remove_ptrs ((d, RemoveFromActive p) # q) = p # remove_ptrs q"
| "remove_ptrs (ev # q) = remove_ptrs q"

fun clear_ptrs :: "(nat \<times> timer) list \<Rightarrow> PubPtr list" where
  "clear_ptrs [] = []"
| "clear_ptrs ((d, ClearLive p) # q) = p # clear_ptrs q"
| "clear_ptrs (ev # q) = clear_ptrs q"

text \<open>
  The passing of time: \<open>advance t\<close> runs every timer that is due up to \<open>t\<close>, each
  at its deadline, and leaves the clock at \<open>t\<close>. A failing callback (an exception of
  \<open>erase\<close>) ends the run.
\<close>

fun fire_all :: "(nat \<times> timer) list \<Rightarrow> 'cb SyncPubsub \<Rightarrow> error + 'cb SyncPubsub" where
  "fire_all [] st = Inr st"
| "fire_all (ev # evs) st =
     (case fire (snd ev) (st\<lparr>m_scheduler := tl (m_scheduler st),
                              clock := max (clock st) (fst ev)\<rparr>) of
        Inl e \<Rightarrow> Inl e
      | Inr st' \<Rightarrow> fire_all evs st')"

definition advance :: "nat \<Rightarrow> 'cb SyncPubsub \<Rightarrow> error + 'cb SyncPubsub" where
  "advance t st =
     (if t < clock st then Inr st
      else case fire_all (takeWhile (\<lambda>ev. fst ev \<le> t) (m_scheduler st)) st of
             Inl e \<Rightarrow> Inl e
           | Inr st' \<Rightarrow> Inr (st'\<lparr>clock := t\<rparr>))"

text \<open>
  \<open>publish\<close>, with the publication as it is after signing, up to the call of
  \<open>addToActive\<close>; what follows (\<open>sendSyncInterest\<close>, \<open>handleInterests\<close>) reads the
  store and the table and changes neither.
\<close>

definition publish_store :: "Publication \<Rightarrow> 'cb SyncPubsub \<Rightarrow> error + 'cb SyncPubsub" where
  "publish_store pub st =
     (if isKnown st pub then Inr st
      else case addToActive pub True (st\<lparr>m_publications := m_publications st + 1\<rparr>) of
             Inl e \<Rightarrow> Inl e
           | Inr (p, st') \<Rightarrow> Inr st')"

text \<open>
  What happens to an engine: the application publishes, a publication arrives in a
  Data packet (one pass of the loop of \<open>onValidData\<close>), or time passes.
\<close>

datatype action = Publish Publication | Receive Publication | Advance nat

fun step :: "action \<Rightarrow> 'cb SyncPubsub \<Rightarrow> error + 'cb SyncPubsub" where
  "step (Publish pub) st = publish_store pub st"
| "step (Receive pub) st = onValidData_element (tlv_Data, pub) st"
| "step (Advance t) st = advance t st"

fun run :: "action list \<Rightarrow> 'cb SyncPubsub \<Rightarrow> error + 'cb SyncPubsub" where
  "run [] st = Inr st"
| "run (a # acts) st = (case step a st of Inl e \<Rightarrow> Inl e | Inr st' \<Rightarrow> run acts st')"

text \<open>
  \<open>admits h a st\<close>: the action \<open>a\<close> adds a publication of digest \<open>h\<close> to the active
  store of \<open>st\<close>; \<open>readmitted h acts st\<close>: one of the actions \<open>acts\<close>, run from \<open>st\<close>,
  does so.
\<close>

fun admits :: "u32 \<Rightarrow> action \<Rightarrow> 'cb SyncPubsub \<Rightarrow> bool" where
  "admits h (Publish pub) st = (hashPub pub = h \<and> \<not> isKnown st pub)"
| "admits h (Receive pub) st =
     (hashPub pub = h \<and> \<not> (m_isExpired st (clock st) pub \<or> isKnown st pub))"
| "admits h (Advance t) st = False"

fun readmitted :: "u32 \<Rightarrow> action list \<Rightarrow> 'cb SyncPubsub \<Rightarrow> bool" where
  "readmitted h [] st = False"
| "readmitted h (a # acts) st =
     (admits h a st \<or> (case step a st of Inl e \<Rightarrow> False | Inr st' \<Rightarrow> readmitted h acts st'))"

text \<open>
  \<open>timers_below n acts st\<close>: before each of the actions \<open>acts\<close>, run from \<open>st\<close>,
  fewer than \<open>n\<close> timers are pending.
\<close>

fun timers_below :: "nat \<Rightarrow> action list \<Rightarrow> 'cb SyncPubsub \<Rightarrow> bool" where
  "timers_below n [] st = True"
| "timers_below n (a # acts) st =
     (length (m_scheduler st) < n \<and>
      (case step a st of Inl e \<Rightarrow> True | Inr st' \<Rightarrow> timers_below n acts st'))"

text \<open>
  The constructor \<open>SyncPubsub(face, syncPrefix, isExpired, filterPubs, ..)\<close>, at time
  \<open>t\<close>; it fails where the constructor of \<open>m_iblt\<close> does.
\<close>

definition SyncPubsub_new ::
  "nat \<Rightarrow> size_t \<Rightarrow> (nat \<Rightarrow> Publication \<Rightarrow> bool) \<Rightarrow>
   (Publication list \<Rightarrow> PubPtr list \<Rightarrow> PubPtr list \<Rightarrow> PubPtr list) \<Rightarrow> nat \<Rightarrow>
   error + 'cb SyncPubsub" where
  "SyncPubsub_new max_size expectedNumEntries isExp filt t =
     (case IBLT_new max_size expectedNumEntries of
        Inl e \<Rightarrow> Inl e
      | Inr iblt \<Rightarrow>
          Inr \<lparr>m_expectedNumEntries = ucast expectedNumEntries, m_iblt = iblt,
               objects = [], m_active = Map.empty, m_hash2pub = Map.empty, m_subscription = [],
               m_scheduler = [], m_scheduledSyncInterestId = None, clock = t,
               m_isExpired = isExp, m_filterPubs = filt, m_publications = 0,
               m_delivering = False, delivered = []\<rparr>)"

text \<open>Bit 0 of the store state of a handle (\<open>m_active[p] & 1\<close>).\<close>

definition live_bit :: "'cb SyncPubsub \<Rightarrow> PubPtr \<Rightarrow> bool" where
  "live_bit st p = (case m_active st p of None \<Rightarrow> False | Some v \<Rightarrow> v AND 1 \<noteq> 0)"

text \<open>
  The invariant of the engine. The table holds exactly the digests whose \<open>erase\<close> is
  still due, each once; the queue is sorted, its deadlines lie within two lifetimes
  after the clock and its handles are in the store; every digest and every handle of
  the queue is in \<open>m_hash2pub\<close>; the \<open>erase\<close> of a publication is not due after its
  removal. \<open>settled\<close>: no timer is overdue.
\<close>

fun erase_before_remove :: "Publication list \<Rightarrow> (nat \<times> timer) list \<Rightarrow> bool" where
  "erase_before_remove objs [] = True"
| "erase_before_remove objs ((d, RemoveFromActive p) # q) =
     (hashPub (objs ! p) \<notin> set (erase_keys q) \<and> erase_before_remove objs q)"
| "erase_before_remove objs (ev # q) = erase_before_remove objs q"

fun timer_ptr_ok :: "nat \<Rightarrow> timer \<Rightarrow> bool" where
  "timer_ptr_ok n (ClearLive p) = (p < n)"
| "timer_ptr_ok n (RemoveFromActive p) = (p < n)"
| "timer_ptr_ok n (EraseHash h) = True"

definition store_inv :: "'cb SyncPubsub \<Rightarrow> bool" where
  "store_inv st =
     (let q = m_scheduler st in
      (q \<noteq> [] \<longrightarrow> length (m_iblt st) div N_HASH \<noteq> 0) \<and>
      m_iblt st = fold (update_cells 1) (erase_keys q) (replicate (length (m_iblt st)) zeroEntry) \<and>
      distinct (erase_keys q) \<and>
      sorted (map fst q) \<and>
      list_all (\<lambda>ev. clock st \<le> fst ev \<and> fst ev \<le> clock st + 2 * maxPubLifetime \<and>
                      timer_ptr_ok (length (objects st)) (snd ev)) q \<and>
      set (erase_keys q) \<subseteq> dom (m_hash2pub st) \<and>
      list_all (\<lambda>p. m_hash2pub st (hashPub (objects st ! p)) = Some p) (remove_ptrs q) \<and>
      distinct (remove_ptrs q) \<and>
      distinct (clear_ptrs q) \<and>
      erase_before_remove (objects st) q)"

definition settled :: "'cb SyncPubsub \<Rightarrow> bool" where
  "settled st = list_all (\<lambda>ev. clock st < fst ev) (m_scheduler st)"

text \<open>
  The timers of one publication \<open>pub\<close>, stored under the handle \<open>hp\<close> at time \<open>t0\<close>:
  \<open>due\<close> gives their deadlines, \<open>track\<close> relates them to the store.
\<close>

fun due :: "Publication \<Rightarrow> PubPtr \<Rightarrow> nat \<Rightarrow> nat \<times> timer \<Rightarrow> bool" where
  "due pub hp t0 (d, ClearLive p) = (p = hp \<longrightarrow> d = t0 + maxPubLifetime)"
| "due pub hp t0 (d, EraseHash h) =
     (h = hashPub pub \<longrightarrow> d = t0 + maxPubLifetime + maxClockSkew)"
| "due pub hp t0 (d, RemoveFromActive p) = (p = hp \<longrightarrow> d = t0 + maxPubLifetime * 2)"

definition track :: "Publication \<Rightarrow> PubPtr \<Rightarrow> nat \<Rightarrow> 'cb SyncPubsub \<Rightarrow> bool" where
  "track pub hp t0 st =
     (let q = m_scheduler st; h = hashPub pub in
      hp < length (objects st) \<and> objects st ! hp = pub \<and>
      m_hash2pub st h = (if hp \<in> set (remove_ptrs q) then Some hp else None) \<and>
      live_bit st hp = (hp \<in> set (clear_ptrs q)) \<and>
      list_all (due pub hp t0) q \<and>
      (clock st < t0 + maxPubLifetime \<longrightarrow> hp \<in> set (clear_ptrs q)) \<and>
      (clock st < t0 + maxPubLifetime + maxClockSkew \<longrightarrow> h \<in> set (erase_keys q)) \<and>
      (clock st < t0 + maxPubLifetime * 2 \<longrightarrow> hp \<in> set (remove_ptrs q)))"

section \<open>Differences that can be peeled\<close>

text \<open>
  The conditions of the amended claim C1 on the difference of two tables of \<open>n\<close>
  cells. The keys of the difference carry the count with which they are in the
  difference table: 1 for a key of the first table only, -1 for a key of the second
  only. \<open>cell_of\<close> is the cell that holds exactly the given keys, \<open>keys_at n j\<close> are the
  keys that have cell \<open>j\<close>, \<open>residue n ks\<close> is the table that holds exactly \<open>ks\<close>.
\<close>

definition signed_keys :: "u32 list \<Rightarrow> u32 list \<Rightarrow> (i32 \<times> u32) list" where
  "signed_keys ps ns = map (Pair 1) ps @ map (Pair (- 1)) ns"

definition cell_of :: "(i32 \<times> u32) list \<Rightarrow> HashTableEntry" where
  "cell_of ks = fold (\<lambda>x. update_entry (fst x) (snd x)) ks zeroEntry"

definition keys_at :: "nat \<Rightarrow> nat \<Rightarrow> (i32 \<times> u32) list \<Rightarrow> (i32 \<times> u32) list" where
  "keys_at n j ks = filter (\<lambda>x. touched (replicate n zeroEntry) (snd x) j) ks"

definition residue :: "nat \<Rightarrow> (i32 \<times> u32) list \<Rightarrow> IBLT" where
  "residue n ks = fold (\<lambda>x. update_cells (fst x) (snd x)) ks (replicate n zeroEntry)"

text \<open>
  \<open>peelable\<close>: whichever keys are left, some cell holds exactly one of them.
  \<open>no_false_cells\<close>: a cell that holds two or more of the keys, or any two or more
  of the keys that share a cell, neither passes for pure (count 1 or -1 and a
  matching check) nor for empty.
\<close>

definition peelable :: "nat \<Rightarrow> (i32 \<times> u32) list \<Rightarrow> bool" where
  "peelable n ks =
     (\<forall>S \<in> set (subseqs ks). S \<noteq> [] \<longrightarrow> (\<exists>j \<in> set [0 ..< n]. length (keys_at n j S) = 1))"

definition no_false_cells :: "nat \<Rightarrow> (i32 \<times> u32) list \<Rightarrow> bool" where
  "no_false_cells n ks =
     (\<forall>j \<in> set [0 ..< n]. \<forall>S \<in> set (subseqs (keys_at n j ks)).
        2 \<le> length S \<longrightarrow> \<not> isPure (cell_of S) \<and> \<not> isEmpty (cell_of S))"

text \<open>
  For the proof: the keys of either sign, and the invariant of the peeling loop (the
  table \<open>peeled\<close> holds the keys \<open>R\<close> that are left; the sets hold the others).
\<close>

definition pos_keys :: "(i32 \<times> u32) list \<Rightarrow> u32 set" where
  "pos_keys ks = snd ` {x \<in> set ks. fst x = 1}"

definition neg_keys :: "(i32 \<times> u32) list \<Rightarrow> u32 set" where
  "neg_keys ks = snd ` {x \<in> set ks. fst x \<noteq> 1}"

definition peel_inv ::
  "nat \<Rightarrow> (i32 \<times> u32) list \<Rightarrow> u32 set \<Rightarrow> u32 set \<Rightarrow> IBLT \<Rightarrow> frame \<Rightarrow> (i32 \<times> u32) list \<Rightarrow> bool"
  where
  "peel_inv n K POS NEG s f R =
     (subseq R K \<and> peeled f = residue n R \<and> self f = s \<and>
      positive f \<union> pos_keys R = POS \<and> negative f \<union> neg_keys R = NEG)"

section \<open>Properties of the constructor\<close>

lemma spec_cells_even: "spec_cells (2 * m) = 3 * m"
  by (simp add: spec_cells_def)

lemma spec_cells_odd: "spec_cells (2 * m + 1) = 3 * m + 3"
proof -
  have "(3 * (2 * m + 1) + 1) div 2 = 3 * m + 2" by simp
  then show ?thesis by (simp add: spec_cells_def)
qed

lemma round3_odd:
  "(let k = (2 * m + 1) + m in if k mod 3 \<noteq> 0 then k + (3 - k mod 3) else k) = 3 * (m::nat) + 3"
proof -
  have "(2 * m + 1 + m) mod 3 = 1" by presburger
  then show ?thesis by (simp add: Let_def)
qed

text \<open>Rounding \<open>n + n div 2\<close> (the floor of 1.5 n) up to a multiple of 3 gives what
  rounding the ceiling gives: the floor of an odd \<open>n\<close> is never a multiple of 3.\<close>

lemma nEntries_nat_spec: "nEntries_nat n = spec_cells n"
proof (cases "even n")
  case True
  then obtain m where "n = 2 * m" by (auto elim: evenE)
  then show ?thesis by (simp add: nEntries_nat_def spec_cells_even)
next
  case False
  then obtain m where n: "n = 2 * m + 1" by (auto elim: oddE)
  have "(2 * m + 1) div 2 = m" by simp
  then show ?thesis using round3_odd[of m] unfolding n nEntries_nat_def spec_cells_odd by simp
qed

lemma unat_nEntries_of:
  assumes "unat e + unat e div 2 + 2 < 2 ^ 64"
  shows "unat (nEntries_of e) = nEntries_nat (unat e)"
proof -
  let ?k = "e + e div 2"
  have d: "unat (e div 2) = unat e div 2" by (simp add: unat_div)
  have k: "unat ?k = unat e + unat e div 2"
    using assms by (simp add: unat_add_lem[THEN iffD1] d)
  have r: "unat (?k mod 3) = unat ?k mod 3" by (simp add: unat_mod)
  have r3: "unat (?k mod 3) < 3" unfolding r by simp
  have le: "?k mod 3 \<le> 3" using r3 by (simp add: word_le_nat_alt)
  have s: "unat (3 - ?k mod 3) = 3 - unat ?k mod 3"
    using le r by (simp add: unat_sub)
  have z: "(?k mod 3 \<noteq> 0) = (unat ?k mod 3 \<noteq> 0)"
    using r by (metis unat_eq_0)
  show ?thesis
  proof (cases "unat ?k mod 3 = 0")
    case True
    then show ?thesis
      unfolding nEntries_of_def nEntries_nat_def Let_def z using k by simp
  next
    case False
    have "unat ?k + 2 < 2 ^ 64" using assms k by simp
    then have "unat ?k + (3 - unat ?k mod 3) < 2 ^ 64" using False by linarith
    then have "unat ?k + unat (3 - ?k mod 3) < 2 ^ LENGTH(64)"
      unfolding s by simp
    then have a: "unat (?k + (3 - ?k mod 3)) = unat ?k + unat (3 - ?k mod 3)"
      by (rule unat_add_lem[THEN iffD1])
    show ?thesis
      unfolding nEntries_of_def nEntries_nat_def Let_def z using False a s k by simp
  qed
qed

lemma nEntries_of_85: "nEntries_of 85 = 129"
  by (simp add: nEntries_of_def)

text \<open>
  C5 (as amended). Where \<open>expectedNumEntries + expectedNumEntries / 2 + 2\<close> does not
  leave the range of \<open>size_t\<close>, the constructor makes a table exactly if the ceiling
  of 1.5 times \<open>expectedNumEntries\<close>, rounded up to a multiple of 3, is not above
  what the vector can be resized to (\<open>max_size\<close>), and the table has that many cells,
  all of them empty; otherwise the constructor throws and makes no table.
\<close>

theorem IBLT_new_cells:
  assumes "unat expectedNumEntries + unat expectedNumEntries div 2 + 2 < 2 ^ 64"
  shows "IBLT_new max_size expectedNumEntries =
           (if max_size < spec_cells (unat expectedNumEntries) then Inl LengthError
            else Inr (replicate (spec_cells (unat expectedNumEntries)) zeroEntry))"
  using assms by (simp add: IBLT_new_def new_table_def unat_nEntries_of nEntries_nat_spec)

text \<open>The default of the engine: 85 expected entries give 129 cells (here with room
  for \<open>(2^63 - 1) / 12\<close> entries of 12 bytes).\<close>

theorem IBLT_new_cells_85:
  "unat (85 :: size_t) + unat (85 :: size_t) div 2 + 2 < 2 ^ 64 \<and>
   spec_cells 85 = 129 \<and>
   IBLT_new ((2 ^ 63 - 1) div 12) 85 = Inr (replicate 129 zeroEntry)"
proof -
  have h: "unat (85 :: size_t) + unat (85 :: size_t) div 2 + 2 < 2 ^ 64" by simp
  have s: "spec_cells 85 = 129" by (simp add: spec_cells_def)
  have "IBLT_new ((2 ^ 63 - 1) div 12) 85 =
           (if (2 ^ 63 - 1) div 12 < spec_cells (unat (85 :: size_t)) then Inl LengthError
            else Inr (replicate (spec_cells (unat (85 :: size_t))) zeroEntry))"
    using h by (rule IBLT_new_cells)
  then have "IBLT_new ((2 ^ 63 - 1) div 12) 85 = Inr (replicate 129 zeroEntry)"
    by (simp add: s)
  then show ?thesis using h s by simp
qed

text \<open>
  C5 as stated fails in two ways. Where the \<open>size_t\<close> sum wraps around: for
  \<open>expectedNumEntries = 12297829382473034411\<close> the sum
  \<open>expectedNumEntries + expectedNumEntries / 2\<close> is \<open>2^64\<close>, that is 0, and the table
  has no cell at all. And where the vector cannot be that long: for
  \<open>expectedNumEntries = 2^62\<close>, with room for \<open>(2^63 - 1) / 12\<close> entries, \<open>resize\<close>
  throws and there is no table.
\<close>

theorem IBLT_new_cells_wraps:
  "IBLT_new ((2 ^ 63 - 1) div 12) 12297829382473034411 = Inr [] \<and>
   spec_cells (unat (12297829382473034411 :: size_t)) = 18446744073709551618 \<and>
   IBLT_new ((2 ^ 63 - 1) div 12) (2 ^ 62) = Inl LengthError \<and>
   spec_cells (unat (2 ^ 62 :: size_t)) = 6917529027641081856"
  by (simp add: IBLT_new_def new_table_def nEntries_of_def spec_cells_def)

section \<open>Properties of update, insert and erase\<close>

lemma upt_N_HASH: "[0 ..< N_HASH] = [0, 1, 2]"
  by (simp add: N_HASH_def upt_rec)

lemma length_update_step [simp]: "length (update_step pm k i t) = length t"
  by (simp add: update_step_def Let_def)

lemma length_update_cells [simp]: "length (update_cells pm k t) = length t"
  by (simp add: update_cells_def upt_N_HASH)

lemma cell_index_bounds:
  assumes "0 < b"
  shows "i * b \<le> cell_index b i k" and "cell_index b i k < i * b + b"
  using assms by (simp_all add: cell_index_def)

lemma cell_index_less:
  assumes "length t div N_HASH \<noteq> 0" and "i < 3"
  shows "cell_index (length t div N_HASH) i k < length t"
proof -
  let ?b = "length t div N_HASH"
  have b: "0 < ?b" using assms(1) by simp
  have "cell_index ?b i k < i * ?b + ?b" using b by (rule cell_index_bounds)
  also have "\<dots> \<le> 2 * ?b + ?b" using assms(2) by simp
  also have "\<dots> = 3 * ?b" by simp
  also have "\<dots> \<le> length t" by (simp add: N_HASH_def)
  finally show ?thesis .
qed

lemma cell_index_distinct:
  assumes "0 < b" and "i < j"
  shows "cell_index b i k \<noteq> cell_index b j k"
proof -
  have "cell_index b i k < i * b + b" using assms(1) by (rule cell_index_bounds)
  also have "\<dots> = Suc i * b" by simp
  also have "\<dots> \<le> j * b" using assms(2) by (intro mult_le_mono1) simp
  also have "\<dots> \<le> cell_index b j k" using assms(1) by (rule cell_index_bounds)
  finally show ?thesis by simp
qed

text \<open>What \<open>update\<close> leaves in each cell.\<close>

lemma nth_update_cells:
  assumes b: "length t div N_HASH \<noteq> 0" and j: "j < length t"
  shows "update_cells pm k t ! j = (if touched t k j then update_entry pm k (t ! j) else t ! j)"
proof -
  let ?b = "length t div N_HASH"
  have pos: "0 < ?b" using b by simp
  have d01: "cell_index ?b 0 k \<noteq> cell_index ?b 1 k"
    and d02: "cell_index ?b 0 k \<noteq> cell_index ?b 2 k"
    and d12: "cell_index ?b 1 k \<noteq> cell_index ?b 2 k"
    using pos by (simp_all add: cell_index_distinct)
  have l0: "cell_index ?b 0 k < length t" and l1: "cell_index ?b 1 k < length t"
    and l2: "cell_index ?b 2 k < length t"
    using b by (simp_all add: cell_index_less)
  show ?thesis
    using d01 d02 d12 l0 l1 l2 j
    by (auto simp: update_cells_def upt_N_HASH update_step_def Let_def touched_def
        nth_list_update)
qed

lemma touched_update_cells [simp]: "touched (update_cells pm k' t) k j = touched t k j"
  by (simp add: touched_def)

lemma update_entry_inverse: "update_entry (- 1) k (update_entry 1 k e) = e"
  by (cases e) (simp add: update_entry_def xor.assoc)

lemma update_cells_inverse:
  assumes "length t div N_HASH \<noteq> 0"
  shows "update_cells (- 1) k (update_cells 1 k t) = t"
proof (rule nth_equalityI)
  show "length (update_cells (- 1) k (update_cells 1 k t)) = length t" by simp
next
  fix j assume "j < length (update_cells (- 1) k (update_cells 1 k t))"
  then have j: "j < length t" by simp
  show "update_cells (- 1) k (update_cells 1 k t) ! j = t ! j"
    using assms j by (simp add: nth_update_cells update_entry_inverse)
qed


lemma replicate3: "replicate 3 x = [x, x, x]"
  by (simp add: numeral_3_eq_3)

lemma nEntries_of_1: "nEntries_of 1 = 3"
  by (simp add: nEntries_of_def)

lemma new_table_1: "new_table 1 = [zeroEntry, zeroEntry, zeroEntry]"
  by (simp add: new_table_def nEntries_of_1 replicate3)

text \<open>In a table of three cells every key has the cells 0, 1 and 2.\<close>

lemma cell_index_1: "cell_index (Suc 0) i k = i"
  by (simp add: cell_index_def)

lemma update_cells_3:
  "update_cells pm k [a, b, c] = [update_entry pm k a, update_entry pm k b, update_entry pm k c]"
  unfolding update_cells_def upt_N_HASH
  by (simp add: update_step_def N_HASH_def cell_index_1)

lemma badPeers_cells_3:
  "badPeers_cells [a, b, c] k =
     (isEmpty a \<or> isPure a \<and> keySum a \<noteq> k \<or> isEmpty b \<or> isPure b \<and> keySum b \<noteq> k \<or>
      isEmpty c \<or> isPure c \<and> keySum c \<noteq> k)"
  by (simp add: badPeers_cells_def chkPeer_def N_HASH_def cell_index_1 numeral_2_eq_2)


lemma insert_five: "insert_key 5 (new_table 1) = Inr plus_five"
  by (simp add: new_table_1 insert_key_def update_def update_cells_3 INSERT_def plus_five_def
      replicate3 update_entry_def zeroEntry_def N_HASH_def)


lemma minus_five_difference: "minus_iblt (new_table 1) plus_five = Inr minus_five"
  by (simp add: minus_iblt_def new_table_1 plus_five_def minus_five_def replicate3 upt_rec
      sub_entry_def zeroEntry_def)



section \<open>Properties of listEntries\<close>

lemma visit_self:
  "visit i f = Continue f' \<Longrightarrow> self f' = self f"
  "visit i f = Return b f' \<Longrightarrow> self f' = self f"
  by (auto simp: visit_def Let_def split: if_splits sum.splits bool.splits)

lemma scan_self:
  "scan idxs f = Continue f' \<Longrightarrow> self f' = self f"
  "scan idxs f = Return b f' \<Longrightarrow> self f' = self f"
proof (induction idxs arbitrary: f)
  case Nil
  { case 1 then show ?case by simp }
  { case 2 then show ?case by simp }
next
  case (Cons i idxs)
  { case 1 then show ?case using Cons(1) visit_self
      by (auto split: flow.splits) }
  { case 2 then show ?case using Cons(2) visit_self
      by (auto split: flow.splits) }
qed

lemma peel_loop_self:
  assumes "peel_loop f = Some r"
  shows "\<forall>b f'. r = Inr (b, f') \<longrightarrow> self f' = self f"
proof (rule peel_loop.raw_induct
    [where P = "\<lambda>f r. \<forall>b f'. r = Inr (b, f') \<longrightarrow> self f' = self f", OF _ assms])
  fix pl :: "frame \<Rightarrow> (error + bool \<times> frame) option" and f r
  assume IH: "\<And>x y. pl x = Some y \<Longrightarrow> \<forall>b f'. y = Inr (b, f') \<longrightarrow> self f' = self x"
    and eq: "(case scan [0 ..< length (peeled f)] (f\<lparr>peeledSomething := False\<rparr>) of
               Fault e \<Rightarrow> Some (Inl e)
             | Return b f' \<Rightarrow> Some (Inr (b, f'))
             | Continue f' \<Rightarrow>
                 if peeledSomething f' then pl f' else Some (Inr (True, f'))) = Some r"
  show "\<forall>b f'. r = Inr (b, f') \<longrightarrow> self f' = self f"
  proof (cases "scan [0 ..< length (peeled f)] (f\<lparr>peeledSomething := False\<rparr>)")
    case (Fault e)
    then show ?thesis using eq by auto
  next
    case (Return b f')
    then show ?thesis using eq scan_self(2)[OF Return] by auto
  next
    case (Continue f')
    have s: "self f' = self f" using scan_self(1)[OF Continue] by simp
    show ?thesis
    proof (cases "peeledSomething f'")
      case True
      then have "pl f' = Some r" using eq Continue by simp
      then have "\<forall>b g. r = Inr (b, g) \<longrightarrow> self g = self f'" by (rule IH)
      then show ?thesis unfolding s .
    next
      case False
      then show ?thesis using eq Continue s by auto
    qed
  qed
qed

text \<open>
  C9. \<open>listEntries\<close> never modifies the table it is called on: whenever the call
  returns, with true or with false, the cells of the object are what they were before
  the call. All peeling is done on the copy \<open>peeled\<close>.
\<close>

theorem listEntries_frame:
  assumes "listEntries t pos neg = Some (Inr (b, f'))"
  shows "self f' = t"
proof -
  have "peel_loop \<lparr>self = t, peeled = t, positive = pos, negative = neg,
          peeledSomething = False\<rparr> = Some (Inr (b, f'))"
    using assms by (simp only: listEntries_def)
  from peel_loop_self [OF this] have "self f' = self \<lparr>self = t, peeled = t, positive = pos,
     negative = neg, peeledSomething = False\<rparr>" by blast
  then show ?thesis by simp
qed

lemma scan_append:
  "scan (xs @ ys) f = (case scan xs f of Continue f' \<Rightarrow> scan ys f' | Return b f' \<Rightarrow> Return b f' | Fault e \<Rightarrow> Fault e)"
  by (induction xs arbitrary: f) (auto split: flow.splits)

lemma visit_not_pure: "\<not> isPure (peeled f ! i) \<Longrightarrow> visit i f = Continue f"
  by (simp add: visit_def)

lemma scan_not_pure:
  assumes "\<And>i. i \<in> set idxs \<Longrightarrow> \<not> isPure (peeled f ! i)"
  shows "scan idxs f = Continue f"
  using assms by (induction idxs) (simp_all add: visit_not_pure)

lemma peel_loop_no_pure:
  assumes "\<And>i. i < length (peeled f) \<Longrightarrow> \<not> isPure (peeled f ! i)"
  shows "peel_loop f = Some (Inr (True, f\<lparr>peeledSomething := False\<rparr>))"
proof -
  have "scan [0 ..< length (peeled f)] (f\<lparr>peeledSomething := False\<rparr>)
          = Continue (f\<lparr>peeledSomething := False\<rparr>)"
    using assms by (intro scan_not_pure) simp
  then show ?thesis by (subst peel_loop.simps) simp
qed

lemma listEntries_no_pure:
  assumes "\<And>i. i < length t \<Longrightarrow> \<not> isPure (t ! i)"
  shows "listEntries t pos neg =
           Some (Inr (True, \<lparr>self = t, peeled = t, positive = pos, negative = neg,
                            peeledSomething = False\<rparr>))"
  unfolding listEntries_def using assms by (subst peel_loop_no_pure) simp_all

lemma not_pure_zeroEntry [simp]: "\<not> isPure zeroEntry"
  by (simp add: isPure_def zeroEntry_def)

lemma isEmpty_zeroEntry [simp]: "isEmpty zeroEntry"
  by (simp add: isEmpty_def zeroEntry_def)

lemma update_entry_zero: "update_entry c k zeroEntry = single c k"
  by (simp add: update_entry_def zeroEntry_def single_def)

lemma update_entry_single: "update_entry (- c) k (single c k) = zeroEntry"
  by (simp add: update_entry_def zeroEntry_def single_def)

lemma isPure_single: "c = 1 \<or> c = - 1 \<Longrightarrow> isPure (single c k)"
  by (auto simp: isPure_def single_def)

lemma not_empty_single: "c = 1 \<or> c = - 1 \<Longrightarrow> \<not> isEmpty (single c k)"
  by (auto simp: isEmpty_def single_def)

lemma touched_replicate_length:
  "length t = length t' \<Longrightarrow> touched t k j = touched t' k j"
  by (simp add: touched_def)

lemma nth_single_table:
  assumes "n div N_HASH \<noteq> 0" and "j < n"
  shows "update_cells c k (replicate n zeroEntry) ! j =
           (if touched (replicate n zeroEntry) k j then single c k else zeroEntry)"
  using assms by (simp add: nth_update_cells update_entry_zero)

lemma update_cells_single_inverse:
  assumes "n div N_HASH \<noteq> 0"
  shows "update_cells (- c) k (update_cells c k (replicate n zeroEntry)) = replicate n zeroEntry"
proof (rule nth_equalityI)
  show "length (update_cells (- c) k (update_cells c k (replicate n zeroEntry))) =
        length (replicate n zeroEntry)" by simp
next
  fix j assume "j < length (update_cells (- c) k (update_cells c k (replicate n zeroEntry)))"
  then have j: "j < n" by simp
  show "update_cells (- c) k (update_cells c k (replicate n zeroEntry)) ! j =
        replicate n zeroEntry ! j"
    using assms j by (simp add: nth_update_cells update_entry_zero update_entry_single)
qed

lemma less_3_cases: "(i::nat) < 3 \<Longrightarrow> i = 0 \<or> i = 1 \<or> i = 2"
  by arith

lemma touched_cell_index:
  "i < 3 \<Longrightarrow> touched t k (cell_index (length t div N_HASH) i k)"
  by (auto simp: touched_def dest: less_3_cases)

lemma badPeers_single_table:
  assumes n: "n div N_HASH \<noteq> 0" and c: "c = 1 \<or> c = - 1"
  shows "badPeers (update_cells c k (replicate n zeroEntry)) k = Inr False"
proof -
  let ?z = "replicate n zeroEntry"
  let ?d = "update_cells c k ?z"
  have cell: "?d ! cell_index (n div N_HASH) i k = single c k" if "i < 3" for i
  proof -
    have lt: "cell_index (n div N_HASH) i k < n"
      using cell_index_less[of ?z i k] n that by simp
    have "touched ?z k (cell_index (n div N_HASH) i k)"
      using touched_cell_index[OF that, of ?z k] by simp
    then show ?thesis using n lt by (simp add: nth_single_table)
  qed
  have ks: "keySum (single c k) = k" by (simp add: single_def)
  have ne: "\<not> isEmpty (single c k)" using c by (rule not_empty_single)
  have "\<not> chkPeer ?d k (cell_index (n div N_HASH) i k)" if "i < 3" for i
    using cell[OF that] ks ne by (simp add: chkPeer_def)
  then have "\<not> badPeers_cells ?d k" by (simp add: badPeers_cells_def)
  then show ?thesis using n by (simp add: badPeers_def)
qed

lemma not_touched_below:
  assumes "0 < length t div N_HASH" and "j < cell_index (length t div N_HASH) 0 k"
  shows "\<not> touched t k j"
proof -
  let ?b = "length t div N_HASH"
  have "cell_index ?b 0 k < 0 * ?b + ?b" using assms(1) by (rule cell_index_bounds)
  then have lt: "cell_index ?b 0 k < ?b" by simp
  have "1 * ?b \<le> cell_index ?b 1 k" using assms(1) by (rule cell_index_bounds)
  moreover have "2 * ?b \<le> cell_index ?b 2 k" using assms(1) by (rule cell_index_bounds)
  ultimately show ?thesis using assms(2) lt by (auto simp: touched_def)
qed

lemma keySum_single [simp]: "keySum (single c k) = k"
  by (simp add: single_def)

lemma count_single [simp]: "count (single c k) = c"
  by (simp add: single_def)

lemma visit_single_table:
  assumes n: "n div N_HASH \<noteq> 0" and c: "c = 1 \<or> c = - 1"
    and p: "peeled f = update_cells c k (replicate n zeroEntry)"
  shows "visit (cell_index (n div N_HASH) 0 k) f =
           Continue (f\<lparr>positive := (if c = 1 then insert k (positive f) else positive f),
                       negative := (if c = 1 then negative f else insert k (negative f)),
                       peeled := replicate n zeroEntry, peeledSomething := True\<rparr>)"
proof -
  let ?z = "replicate n zeroEntry"
  let ?i = "cell_index (n div N_HASH) 0 k"
  have lt: "?i < n" using cell_index_less[of ?z 0 k] n by simp
  have t: "touched ?z k ?i" using touched_cell_index[of 0 ?z k] by simp
  have e: "peeled f ! ?i = single c k" unfolding p using n lt t by (simp add: nth_single_table)
  have pure: "isPure (single c k)" using c by (rule isPure_single)
  have bad: "badPeers (peeled f) k = Inr False" unfolding p using n c by (rule badPeers_single_table)
  have upd: "update (- c) k (peeled f) = Inr ?z"
    unfolding p using n by (simp add: update_def update_cells_single_inverse)
  show ?thesis
  proof (cases "c = 1")
    case True
    then show ?thesis using pure bad upd
      by (simp add: visit_def Let_def e)
  next
    case False
    then show ?thesis using pure bad upd
      by (simp add: visit_def Let_def e)
  qed
qed

lemma listEntries_single_table:
  assumes n: "n div N_HASH \<noteq> 0" and c: "c = 1 \<or> c = - 1"
  shows "listEntries (update_cells c k (replicate n zeroEntry)) pos neg =
           Some (Inr (True, \<lparr>self = update_cells c k (replicate n zeroEntry),
                            peeled = replicate n zeroEntry,
                            positive = (if c = 1 then insert k pos else pos),
                            negative = (if c = 1 then neg else insert k neg),
                            peeledSomething = False\<rparr>))"
proof -
  let ?z = "replicate n zeroEntry"
  let ?d = "update_cells c k ?z"
  let ?i = "cell_index (n div N_HASH) 0 k"
  let ?f0 = "\<lparr>self = ?d, peeled = ?d, positive = pos, negative = neg, peeledSomething = False\<rparr>"
  let ?f1 = "\<lparr>self = ?d, peeled = ?z, positive = (if c = 1 then insert k pos else pos),
              negative = (if c = 1 then neg else insert k neg), peeledSomething = True\<rparr>"
  have lt: "?i < n" using cell_index_less[of ?z 0 k] n by simp
  have "[0 ..< ?i + (n - ?i)] = [0 ..< ?i] @ [?i ..< ?i + (n - ?i)]"
    by (rule upt_add_eq_append) simp
  then have split: "[0 ..< n] = [0 ..< ?i] @ ?i # [Suc ?i ..< n]"
    using lt by (simp add: upt_conv_Cons)
  have a: "scan [0 ..< ?i] ?f0 = Continue ?f0"
  proof (rule scan_not_pure)
    fix i assume "i \<in> set [0 ..< ?i]"
    then have i: "i < ?i" by simp
    then have "\<not> touched ?z k i" using not_touched_below[of ?z i k] n by simp
    then have "?d ! i = zeroEntry" using n i lt by (simp add: nth_single_table)
    then show "\<not> isPure (peeled ?f0 ! i)" by simp
  qed
  have b: "visit ?i ?f0 = Continue ?f1"
    using visit_single_table[OF n c, of ?f0 k] by simp
  have cc: "scan [Suc ?i ..< n] ?f1 = Continue ?f1"
    by (rule scan_not_pure) simp
  have s: "scan [0 ..< n] ?f0 = Continue ?f1"
    unfolding split by (simp add: scan_append a b cc)
  have l: "peel_loop ?f1 = Some (Inr (True, ?f1\<lparr>peeledSomething := False\<rparr>))"
    by (rule peel_loop_no_pure) simp
  have "peel_loop ?f0 = peel_loop ?f1"
    by (subst peel_loop.simps) (simp add: s)
  then show ?thesis unfolding listEntries_def using l by simp
qed

section \<open>Tables built from lists of keys\<close>

lemma insert_all_fold:
  assumes "length t div N_HASH \<noteq> 0"
  shows "insert_all ks t = Inr (fold (update_cells 1) ks t)"
  using assms
  by (induction ks arbitrary: t) (simp_all add: insert_key_def update_def INSERT_def)

lemma insert_all_Inr_D:
  assumes "insert_all ks t = Inr a" and "ks \<noteq> []"
  shows "length t div N_HASH \<noteq> 0"
  using assms by (cases ks) (auto simp: insert_key_def update_def split: if_splits)

lemma length_fold_update_cells [simp]: "length (fold (update_cells c) ks t) = length t"
  by (induction ks arbitrary: t) simp_all

lemma nth_fold_update_cells:
  assumes "length t div N_HASH \<noteq> 0" and "j < length t"
  shows "fold (update_cells 1) ks t ! j =
           fold (update_entry 1) (filter (\<lambda>k. touched t k j) ks) (t ! j)"
  using assms
proof (induction ks arbitrary: t)
  case Nil
  then show ?case by simp
next
  case (Cons k ks)
  have "fold (update_cells 1) ks (update_cells 1 k t) ! j =
          fold (update_entry 1) (filter (\<lambda>k'. touched (update_cells 1 k t) k' j) ks)
            (update_cells 1 k t ! j)"
    using Cons.prems by (intro Cons.IH) simp_all
  then show ?case using Cons.prems by (simp add: nth_update_cells)
qed

lemma update_entry_commute:
  "update_entry c a (update_entry d b e) = update_entry d b (update_entry c a e)"
  by (cases e) (simp add: update_entry_def ac_simps)

lemma fold_update_entry_mset:
  assumes "mset xs = mset ys"
  shows "fold (update_entry 1) xs = fold (update_entry 1) ys"
proof (rule fold_multiset_equiv [OF _ assms])
  fix x y
  show "update_entry 1 x \<circ> update_entry 1 y = update_entry 1 y \<circ> update_entry 1 x"
  proof
    fix e show "(update_entry 1 x \<circ> update_entry 1 y) e = (update_entry 1 y \<circ> update_entry 1 x) e"
      unfolding o_apply by (rule update_entry_commute)
  qed
qed

lemma fold_update_entry_out:
  "fold (update_entry 1) ks (update_entry c k e) = update_entry c k (fold (update_entry 1) ks e)"
proof (induction ks arbitrary: e)
  case Nil
  show ?case by simp
next
  case (Cons a ks)
  have "fold (update_entry 1) (a # ks) (update_entry c k e)
          = fold (update_entry 1) ks (update_entry 1 a (update_entry c k e))" by simp
  also have "\<dots> = fold (update_entry 1) ks (update_entry c k (update_entry 1 a e))"
    by (simp only: update_entry_commute[of 1 a c k e])
  also have "\<dots> = update_entry c k (fold (update_entry 1) ks (update_entry 1 a e))"
    by (rule Cons.IH)
  finally show ?case by simp
qed

lemma sub_entry_update_left:
  "sub_entry (update_entry c k e1) e2 = update_entry c k (sub_entry e1 e2)"
  by (simp add: sub_entry_def update_entry_def ac_simps)

lemma sub_entry_update_right:
  "sub_entry e1 (update_entry c k e2) = update_entry (- c) k (sub_entry e1 e2)"
  by (simp add: sub_entry_def update_entry_def ac_simps)

lemma sub_entry_self [simp]: "sub_entry e e = zeroEntry"
  by (simp add: sub_entry_def zeroEntry_def)

lemma minus_iblt_nth:
  "minus_iblt a b = Inr d \<Longrightarrow> length d = length a \<and> length b = length a \<and>
     (\<forall>j < length a. d ! j = sub_entry (a ! j) (b ! j))"
  by (auto simp: minus_iblt_def split: if_splits)

text \<open>Tables built from the same empty table, whose keys differ by one key.\<close>

lemma sub_entry_extra_key:
  assumes "mset xs = add_mset k (mset ys)"
  shows "sub_entry (fold (update_entry 1) (filter P xs) e) (fold (update_entry 1) (filter P ys) e)
           = (if P k then single 1 k else zeroEntry)"
proof -
  have "mset (filter P xs) = mset ((if P k then [k] else []) @ filter P ys)"
    using assms by simp
  then have "fold (update_entry 1) (filter P xs)
               = fold (update_entry 1) ((if P k then [k] else []) @ filter P ys)"
    by (rule fold_update_entry_mset)
  then show ?thesis
    by (simp add: fold_update_entry_out sub_entry_update_left update_entry_zero)
qed

lemma sub_entry_extra_key_right:
  assumes "mset ys = add_mset k (mset xs)"
  shows "sub_entry (fold (update_entry 1) (filter P xs) e) (fold (update_entry 1) (filter P ys) e)
           = (if P k then single (- 1) k else zeroEntry)"
proof -
  have "mset (filter P ys) = mset ((if P k then [k] else []) @ filter P xs)"
    using assms by simp
  then have "fold (update_entry 1) (filter P ys)
               = fold (update_entry 1) ((if P k then [k] else []) @ filter P xs)"
    by (rule fold_update_entry_mset)
  then show ?thesis
    by (simp add: fold_update_entry_out sub_entry_update_right update_entry_zero)
qed

lemma difference_extra_key:
  assumes n: "n div N_HASH \<noteq> 0" and m: "mset xs = add_mset k (mset ys)"
  shows "minus_iblt (fold (update_cells 1) xs (replicate n zeroEntry))
           (fold (update_cells 1) ys (replicate n zeroEntry))
         = Inr (update_cells 1 k (replicate n zeroEntry))"
proof -
  let ?z = "replicate n zeroEntry"
  have "map (\<lambda>i. sub_entry (fold (update_cells 1) xs ?z ! i) (fold (update_cells 1) ys ?z ! i))
          [0 ..< n] = update_cells 1 k ?z"
  proof (rule nth_equalityI)
    show "length (map (\<lambda>i. sub_entry (fold (update_cells 1) xs ?z ! i)
            (fold (update_cells 1) ys ?z ! i)) [0 ..< n]) = length (update_cells 1 k ?z)"
      by simp
  next
    fix j assume "j < length (map (\<lambda>i. sub_entry (fold (update_cells 1) xs ?z ! i)
            (fold (update_cells 1) ys ?z ! i)) [0 ..< n])"
    then have j: "j < n" by simp
    show "map (\<lambda>i. sub_entry (fold (update_cells 1) xs ?z ! i)
            (fold (update_cells 1) ys ?z ! i)) [0 ..< n] ! j = update_cells 1 k ?z ! j"
      using n j by (simp add: nth_fold_update_cells sub_entry_extra_key[OF m] nth_single_table)
  qed
  then show ?thesis by (simp add: minus_iblt_def)
qed

lemma difference_extra_key_right:
  assumes n: "n div N_HASH \<noteq> 0" and m: "mset ys = add_mset k (mset xs)"
  shows "minus_iblt (fold (update_cells 1) xs (replicate n zeroEntry))
           (fold (update_cells 1) ys (replicate n zeroEntry))
         = Inr (update_cells (- 1) k (replicate n zeroEntry))"
proof -
  let ?z = "replicate n zeroEntry"
  have "map (\<lambda>i. sub_entry (fold (update_cells 1) xs ?z ! i) (fold (update_cells 1) ys ?z ! i))
          [0 ..< n] = update_cells (- 1) k ?z"
  proof (rule nth_equalityI)
    show "length (map (\<lambda>i. sub_entry (fold (update_cells 1) xs ?z ! i)
            (fold (update_cells 1) ys ?z ! i)) [0 ..< n]) = length (update_cells (- 1) k ?z)"
      by simp
  next
    fix j assume "j < length (map (\<lambda>i. sub_entry (fold (update_cells 1) xs ?z ! i)
            (fold (update_cells 1) ys ?z ! i)) [0 ..< n])"
    then have j: "j < n" by simp
    show "map (\<lambda>i. sub_entry (fold (update_cells 1) xs ?z ! i)
            (fold (update_cells 1) ys ?z ! i)) [0 ..< n] ! j = update_cells (- 1) k ?z ! j"
      using n j
      by (simp add: nth_fold_update_cells sub_entry_extra_key_right[OF m] nth_single_table)
  qed
  then show ?thesis by (simp add: minus_iblt_def)
qed

lemma minus_iblt_self: "minus_iblt t t = Inr (replicate (length t) zeroEntry)"
proof -
  have "map (\<lambda>i. sub_entry (t ! i) (t ! i)) [0 ..< length t] = replicate (length t) zeroEntry"
    by (rule nth_equalityI) simp_all
  then show ?thesis by (simp add: minus_iblt_def)
qed

lemma insert_all_length: "insert_all ks t = Inr a \<Longrightarrow> length a = length t"
proof (induction ks arbitrary: t)
  case Nil
  then show ?case by simp
next
  case (Cons k ks)
  then show ?case
    by (auto simp: insert_key_def update_def split: if_splits sum.splits)
qed

lemma fold_update_cells_mset:
  assumes n: "n div N_HASH \<noteq> 0" and m: "mset xs = mset ys"
  shows "fold (update_cells 1) xs (replicate n zeroEntry)
           = fold (update_cells 1) ys (replicate n zeroEntry)"
proof (rule nth_equalityI)
  show "length (fold (update_cells 1) xs (replicate n zeroEntry)) =
        length (fold (update_cells 1) ys (replicate n zeroEntry))" by simp
next
  fix j assume "j < length (fold (update_cells 1) xs (replicate n zeroEntry))"
  then have j: "j < n" by simp
  let ?P = "\<lambda>k. touched (replicate n zeroEntry) k j"
  have "mset (filter ?P xs) = mset (filter ?P ys)" using m by simp
  then have "fold (update_entry 1) (filter ?P xs) = fold (update_entry 1) (filter ?P ys)"
    by (rule fold_update_entry_mset)
  then show "fold (update_cells 1) xs (replicate n zeroEntry) ! j =
        fold (update_cells 1) ys (replicate n zeroEntry) ! j"
    using n j by (simp add: nth_fold_update_cells)
qed

lemma new_table_replicate: "new_table e = replicate (length (new_table e)) zeroEntry"
  by (simp add: new_table_def)

lemma listEntries_zero_table:
  "listEntries (replicate n zeroEntry) pos neg =
     Some (Inr (True, \<lparr>self = replicate n zeroEntry, peeled = replicate n zeroEntry,
                      positive = pos, negative = neg, peeledSomething = False\<rparr>))"
  by (rule listEntries_no_pure) simp

lemma length_residue [simp]: "length (residue n ks) = n"
proof -
  have "length (fold (\<lambda>x. update_cells (fst x) (snd x)) ks t) = length t" for t
    by (induction ks arbitrary: t) simp_all
  then show ?thesis by (simp add: residue_def)
qed

lemma nth_fold_signed:
  assumes "length t div N_HASH \<noteq> 0" and "j < length t"
  shows "fold (\<lambda>x. update_cells (fst x) (snd x)) ks t ! j =
           fold (\<lambda>x. update_entry (fst x) (snd x)) (keys_at (length t) j ks) (t ! j)"
  using assms
proof (induction ks arbitrary: t)
  case Nil
  then show ?case by (simp add: keys_at_def)
next
  case (Cons x ks)
  let ?t = "update_cells (fst x) (snd x) t"
  have l: "length ?t = length t" by simp
  have ih: "fold (\<lambda>x. update_cells (fst x) (snd x)) ks ?t ! j =
          fold (\<lambda>x. update_entry (fst x) (snd x)) (keys_at (length t) j ks) (?t ! j)"
    using Cons.IH[of ?t] Cons.prems by simp
  have t: "touched (replicate (length t) zeroEntry) (snd x) j = touched t (snd x) j"
    by (rule touched_replicate_length) simp
  show ?case
    using Cons.prems by (simp add: ih nth_update_cells keys_at_def t)
qed

lemma nth_residue:
  assumes "n div N_HASH \<noteq> 0" and "j < n"
  shows "residue n ks ! j = cell_of (keys_at n j ks)"
  using nth_fold_signed[of "replicate n zeroEntry" j ks] assms
  by (simp add: residue_def cell_of_def)

lemma cell_of_mset:
  assumes "mset xs = mset ys"
  shows "cell_of xs = cell_of ys"
proof -
  have "fold (\<lambda>x. update_entry (fst x) (snd x)) xs = fold (\<lambda>x. update_entry (fst x) (snd x)) ys"
  proof (rule fold_multiset_equiv [OF _ assms])
    fix x y :: "i32 \<times> u32"
    show "update_entry (fst x) (snd x) \<circ> update_entry (fst y) (snd y) =
          update_entry (fst y) (snd y) \<circ> update_entry (fst x) (snd x)"
    proof
      fix e
      show "(update_entry (fst x) (snd x) \<circ> update_entry (fst y) (snd y)) e =
            (update_entry (fst y) (snd y) \<circ> update_entry (fst x) (snd x)) e"
        unfolding o_apply by (rule update_entry_commute)
    qed
  qed
  then show ?thesis by (simp add: cell_of_def)
qed

lemma cell_of_snoc: "cell_of (ks @ [x]) = update_entry (fst x) (snd x) (cell_of ks)"
  by (simp add: cell_of_def)

lemma update_entry_cancel: "update_entry (- c) k (update_entry c k e) = e"
  by (cases e) (simp add: update_entry_def xor.assoc)

lemma cell_of_remove1:
  assumes "x \<in> set ks"
  shows "update_entry (- fst x) (snd x) (cell_of ks) = cell_of (remove1 x ks)"
proof -
  have "mset ks = mset (remove1 x ks @ [x])" using assms by simp
  then have "cell_of ks = cell_of (remove1 x ks @ [x])" by (rule cell_of_mset)
  then show ?thesis by (simp add: cell_of_snoc update_entry_cancel)
qed

lemma keys_at_remove1: "keys_at n j (remove1 x ks) = remove1 x (keys_at n j ks)"
  by (simp add: keys_at_def filter_remove1)

lemma residue_remove1:
  assumes n: "n div N_HASH \<noteq> 0" and x: "x \<in> set ks"
  shows "update_cells (- fst x) (snd x) (residue n ks) = residue n (remove1 x ks)"
proof (rule nth_equalityI)
  show "length (update_cells (- fst x) (snd x) (residue n ks)) = length (residue n (remove1 x ks))"
    by simp
next
  fix j assume "j < length (update_cells (- fst x) (snd x) (residue n ks))"
  then have j: "j < n" by simp
  have t: "touched (residue n ks) (snd x) j = touched (replicate n zeroEntry) (snd x) j"
    by (rule touched_replicate_length) simp
  show "update_cells (- fst x) (snd x) (residue n ks) ! j = residue n (remove1 x ks) ! j"
  proof (cases "touched (replicate n zeroEntry) (snd x) j")
    case True
    then have "x \<in> set (keys_at n j ks)" using x by (simp add: keys_at_def)
    then have "update_entry (- fst x) (snd x) (cell_of (keys_at n j ks)) =
               cell_of (remove1 x (keys_at n j ks))"
      by (rule cell_of_remove1)
    then show ?thesis
      using n j True by (simp add: nth_update_cells t nth_residue keys_at_remove1)
  next
    case False
    then have "x \<notin> set (keys_at n j ks)" by (simp add: keys_at_def)
    then have "remove1 x (keys_at n j ks) = keys_at n j ks" by (rule remove1_idem)
    then show ?thesis
      using n j False by (simp add: nth_update_cells t nth_residue keys_at_remove1)
  qed
qed

lemma subseq_remove1: "subseq (remove1 x xs) xs"
  by (induction xs) auto

lemma set_remove1_insert: "x \<in> set xs \<Longrightarrow> insert x (set (remove1 x xs)) = set xs"
  by (induction xs) auto

lemma pos_keys_remove1:
  assumes "x \<in> set ks"
  shows "fst x = 1 \<Longrightarrow> insert (snd x) (pos_keys (remove1 x ks)) = pos_keys ks"
    and "fst x = 1 \<Longrightarrow> neg_keys (remove1 x ks) = neg_keys ks"
    and "fst x \<noteq> 1 \<Longrightarrow> pos_keys (remove1 x ks) = pos_keys ks"
    and "fst x \<noteq> 1 \<Longrightarrow> insert (snd x) (neg_keys (remove1 x ks)) = neg_keys ks"
  unfolding pos_keys_def neg_keys_def set_remove1_insert[OF assms, symmetric] by auto

lemma no_false_cellsD:
  assumes h: "no_false_cells n K" and sub: "subseq R K" and j: "j < n"
    and l: "2 \<le> length (keys_at n j R)"
  shows "\<not> isPure (cell_of (keys_at n j R))" and "\<not> isEmpty (cell_of (keys_at n j R))"
proof -
  have "subseq (keys_at n j R) (keys_at n j K)"
    unfolding keys_at_def using sub by (rule subseq_filter)
  then have "keys_at n j R \<in> set (subseqs (keys_at n j K))" by simp
  moreover have "j \<in> set [0 ..< n]" using j by simp
  ultimately have "\<not> isPure (cell_of (keys_at n j R)) \<and> \<not> isEmpty (cell_of (keys_at n j R))"
    using h l unfolding no_false_cells_def by blast
  then show "\<not> isPure (cell_of (keys_at n j R))" and "\<not> isEmpty (cell_of (keys_at n j R))"
    by simp_all
qed

lemma cell_of_Nil [simp]: "cell_of [] = zeroEntry"
  by (simp add: cell_of_def)

lemma cell_of_single [simp]: "cell_of [x] = single (fst x) (snd x)"
  by (simp add: cell_of_def update_entry_zero)

lemma visit_keep:
  assumes n3: "n div N_HASH \<noteq> 0" and h: "no_false_cells n K" and sub: "subseq R K"
    and p: "peeled f = residue n R" and i: "i < n" and l: "length (keys_at n i R) \<noteq> 1"
  shows "visit i f = Continue f"
proof -
  have c: "peeled f ! i = cell_of (keys_at n i R)"
    unfolding p using n3 i by (rule nth_residue)
  have "\<not> isPure (cell_of (keys_at n i R))"
  proof (cases "keys_at n i R = []")
    case True
    then show ?thesis by simp
  next
    case False
    then have "2 \<le> length (keys_at n i R)"
      using l by (cases "keys_at n i R") (auto simp: Suc_le_eq)
    then show ?thesis by (rule no_false_cellsD(1)[OF h sub i])
  qed
  then show ?thesis unfolding c[symmetric] by (rule visit_not_pure)
qed

lemma peer_ok:
  assumes n3: "n div N_HASH \<noteq> 0" and sg: "fst x = 1 \<or> fst x = - 1"
    and h: "no_false_cells n K" and sub: "subseq R K" and x: "x \<in> set R" and m: "m < 3"
  shows "\<not> chkPeer (residue n R) (snd x) (cell_index (n div N_HASH) m (snd x))"
proof -
  let ?j = "cell_index (n div N_HASH) m (snd x)"
  let ?z = "replicate n zeroEntry"
  have j: "?j < n" using cell_index_less[of ?z m "snd x"] n3 m by simp
  have t: "touched ?z (snd x) ?j" using touched_cell_index[OF m, of ?z "snd x"] by simp
  have c: "residue n R ! ?j = cell_of (keys_at n ?j R)" using n3 j by (rule nth_residue)
  have mem: "x \<in> set (keys_at n ?j R)" using x t by (simp add: keys_at_def)
  show ?thesis
  proof (cases "2 \<le> length (keys_at n ?j R)")
    case True
    note no_false_cellsD[OF h sub j True]
    then show ?thesis by (simp add: chkPeer_def Let_def c)
  next
    case False
    then have "keys_at n ?j R = [x]"
      using mem by (cases "keys_at n ?j R") (auto simp: not_le Suc_le_eq)
    then show ?thesis
      using sg by (simp add: chkPeer_def Let_def c not_empty_single)
  qed
qed

lemma visit_peel:
  assumes n3: "n div N_HASH \<noteq> 0" and sg: "\<forall>x \<in> set K. fst x = 1 \<or> fst x = - 1"
    and h: "no_false_cells n K" and sub: "subseq R K"
    and p: "peeled f = residue n R" and i: "i < n" and l: "keys_at n i R = [x]"
  shows "visit i f =
           Continue ((if fst x = 1 then f\<lparr>positive := insert (snd x) (positive f)\<rparr>
                      else f\<lparr>negative := insert (snd x) (negative f)\<rparr>)
                     \<lparr>peeled := residue n (remove1 x R), peeledSomething := True\<rparr>)"
proof -
  have c: "residue n R ! i = single (fst x) (snd x)"
    using nth_residue[OF n3 i, of R] l by simp
  have "x \<in> set (keys_at n i R)" unfolding l by simp
  then have x: "x \<in> set R" by (simp add: keys_at_def)
  then have "x \<in> set K" using sub by (auto dest: list_emb_set)
  then have s: "fst x = 1 \<or> fst x = - 1" using sg by blast
  have bp: "badPeers (residue n R) (snd x) = Inr False"
    using n3 peer_ok[OF n3 s h sub x]
    by (simp add: badPeers_def badPeers_cells_def Let_def)
  have u: "update (- fst x) (snd x) (residue n R) = Inr (residue n (remove1 x R))"
    using n3 by (simp add: update_def residue_remove1[OF n3 x])
  show ?thesis
  proof (cases "fst x = 1")
    case True
    have u1: "update (- 1) (snd x) (residue n R) = Inr (residue n (remove1 x R))"
      using u True by simp
    have c1: "residue n R ! i = single 1 (snd x)" using c True by simp
    show ?thesis using True by (simp add: visit_def Let_def c1 isPure_single p bp u1)
  next
    case False
    then have m: "fst x = - 1" using s by simp
    have u1: "update 1 (snd x) (residue n R) = Inr (residue n (remove1 x R))"
      using u m by simp
    have c1: "residue n R ! i = single (- 1) (snd x)" using c m by simp
    show ?thesis using m by (simp add: visit_def Let_def c1 isPure_single p bp u1)
  qed
qed

lemma peel_inv_flag [simp]:
  "peel_inv n K POS NEG s (f\<lparr>peeledSomething := b\<rparr>) R = peel_inv n K POS NEG s f R"
  by (simp add: peel_inv_def)

lemma visit_inv:
  assumes n3: "n div N_HASH \<noteq> 0" and sg: "\<forall>x \<in> set K. fst x = 1 \<or> fst x = - 1"
    and h: "no_false_cells n K" and inv: "peel_inv n K POS NEG s f R" and i: "i < n"
  shows "\<exists>f' R'. visit i f = Continue f' \<and> peel_inv n K POS NEG s f' R' \<and> subseq R' R \<and>
           peeledSomething f' = (peeledSomething f \<or> length R' < length R) \<and>
           (R' = R \<longrightarrow> length (keys_at n i R) \<noteq> 1)"
proof (cases "length (keys_at n i R) = 1")
  case False
  have sub: "subseq R K" and p: "peeled f = residue n R" using inv by (simp_all add: peel_inv_def)
  have "visit i f = Continue f" by (rule visit_keep[OF n3 h sub p i False])
  then have "visit i f = Continue f \<and> peel_inv n K POS NEG s f R \<and> subseq R R \<and>
           peeledSomething f = (peeledSomething f \<or> length R < length R) \<and>
           (R = R \<longrightarrow> length (keys_at n i R) \<noteq> 1)"
    using inv False by simp
  then show ?thesis by blast
next
  case True
  then obtain x where l: "keys_at n i R = [x]"
    by (cases "keys_at n i R") auto
  have sub: "subseq R K" and p: "peeled f = residue n R" and sf: "self f = s"
    and ps: "positive f \<union> pos_keys R = POS" and ng: "negative f \<union> neg_keys R = NEG"
    using inv by (simp_all add: peel_inv_def)
  let ?R = "remove1 x R"
  let ?f = "(if fst x = 1 then f\<lparr>positive := insert (snd x) (positive f)\<rparr>
             else f\<lparr>negative := insert (snd x) (negative f)\<rparr>)
            \<lparr>peeled := residue n ?R, peeledSomething := True\<rparr>"
  have v: "visit i f = Continue ?f" by (rule visit_peel[OF n3 sg h sub p i l])
  have "x \<in> set (keys_at n i R)" unfolding l by simp
  then have x: "x \<in> set R" by (simp add: keys_at_def)
  have sr: "subseq ?R R" by (rule subseq_remove1)
  have sk: "subseq ?R K" using sr sub by (rule subseq_order.trans)
  have "0 < length R" using x by (cases R) simp_all
  then have len: "length ?R < length R" using x by (simp add: length_remove1)
  note pk = pos_keys_remove1[OF x]
  have inv': "peel_inv n K POS NEG s ?f ?R"
  proof (cases "fst x = 1")
    case True
    have "insert (snd x) (positive f) \<union> pos_keys ?R = positive f \<union> pos_keys R"
      using pk(1)[OF True] by auto
    then show ?thesis using True sk sf ps ng pk(2)[OF True] by (simp add: peel_inv_def)
  next
    case False
    have "insert (snd x) (negative f) \<union> neg_keys ?R = negative f \<union> neg_keys R"
      using pk(4)[OF False] by auto
    then show ?thesis using False sk sf ps ng pk(3)[OF False] by (simp add: peel_inv_def)
  qed
  have "visit i f = Continue ?f \<and> peel_inv n K POS NEG s ?f ?R \<and> subseq ?R R \<and>
           peeledSomething ?f = (peeledSomething f \<or> length ?R < length R) \<and>
           (?R = R \<longrightarrow> length (keys_at n i R) \<noteq> 1)"
    using v inv' sr len by auto
  then show ?thesis by blast
qed

lemma scan_inv:
  assumes n3: "n div N_HASH \<noteq> 0" and sg: "\<forall>x \<in> set K. fst x = 1 \<or> fst x = - 1"
    and h: "no_false_cells n K"
  shows "peel_inv n K POS NEG s f R \<Longrightarrow> \<forall>i \<in> set idxs. i < n \<Longrightarrow>
         \<exists>f' R'. scan idxs f = Continue f' \<and> peel_inv n K POS NEG s f' R' \<and> subseq R' R \<and>
           peeledSomething f' = (peeledSomething f \<or> length R' < length R) \<and>
           (R' = R \<longrightarrow> (\<forall>i \<in> set idxs. length (keys_at n i R) \<noteq> 1))"
proof (induction idxs arbitrary: f R)
  case Nil
  then have "scan [] f = Continue f \<and> peel_inv n K POS NEG s f R \<and> subseq R R \<and>
           peeledSomething f = (peeledSomething f \<or> length R < length R) \<and>
           (R = R \<longrightarrow> (\<forall>i \<in> set []. length (keys_at n i R) \<noteq> 1))"
    by simp
  then show ?case by blast
next
  case (Cons i idxs)
  have i: "i < n" and rest: "\<forall>i \<in> set idxs. i < n" using Cons.prems(2) by simp_all
  from visit_inv[OF n3 sg h Cons.prems(1) i]
  obtain f1 R1 where v: "visit i f = Continue f1" and inv1: "peel_inv n K POS NEG s f1 R1"
    and s1: "subseq R1 R"
    and fl1: "peeledSomething f1 = (peeledSomething f \<or> length R1 < length R)"
    and e1: "R1 = R \<longrightarrow> length (keys_at n i R) \<noteq> 1"
    by blast
  from Cons.IH[OF inv1 rest]
  obtain f2 R2 where sc: "scan idxs f1 = Continue f2" and inv2: "peel_inv n K POS NEG s f2 R2"
    and s2: "subseq R2 R1"
    and fl2: "peeledSomething f2 = (peeledSomething f1 \<or> length R2 < length R1)"
    and e2: "R2 = R1 \<longrightarrow> (\<forall>i \<in> set idxs. length (keys_at n i R1) \<noteq> 1)"
    by blast
  have l1: "length R1 \<le> length R" using s1 by (rule list_emb_length)
  have l2: "length R2 \<le> length R1" using s2 by (rule list_emb_length)
  have a: "scan (i # idxs) f = Continue f2" using v sc by simp
  have b: "subseq R2 R" using s2 s1 by (rule subseq_order.trans)
  have c: "peeledSomething f2 = (peeledSomething f \<or> length R2 < length R)"
    using fl1 fl2 l1 l2 by auto
  have d: "R2 = R \<longrightarrow> (\<forall>j \<in> set (i # idxs). length (keys_at n j R) \<noteq> 1)"
  proof
    assume eq: "R2 = R"
    then have "length R1 = length R" using l1 l2 by simp
    then have r1: "R1 = R" using s1 by (intro subseq_same_length)
    then show "\<forall>j \<in> set (i # idxs). length (keys_at n j R) \<noteq> 1"
      using e1 e2 eq by simp
  qed
  from a inv2 b c d show ?case by blast
qed

lemma peel_loop_inv:
  assumes n3: "n div N_HASH \<noteq> 0" and sg: "\<forall>x \<in> set K. fst x = 1 \<or> fst x = - 1"
    and h: "no_false_cells n K" and pe: "peelable n K"
  shows "peel_inv n K POS NEG s f R \<Longrightarrow>
         \<exists>f'. peel_loop f = Some (Inr (True, f')) \<and> peel_inv n K POS NEG s f' []"
proof (induction "length R" arbitrary: f R rule: less_induct)
  case less
  let ?f0 = "f\<lparr>peeledSomething := False\<rparr>"
  have inv0: "peel_inv n K POS NEG s ?f0 R" using less.prems by simp
  have len: "length (peeled f) = n" using less.prems by (simp add: peel_inv_def)
  have idx: "\<forall>i \<in> set [0 ..< n]. i < n" by simp
  from scan_inv[OF n3 sg h inv0 idx]
  obtain f1 R1 where sc: "scan [0 ..< n] ?f0 = Continue f1"
    and inv1: "peel_inv n K POS NEG s f1 R1" and s1: "subseq R1 R"
    and fl: "peeledSomething f1 = (peeledSomething ?f0 \<or> length R1 < length R)"
    and e: "R1 = R \<longrightarrow> (\<forall>i \<in> set [0 ..< n]. length (keys_at n i R) \<noteq> 1)"
    by blast
  show ?case
  proof (cases "peeledSomething f1")
    case True
    then have "length R1 < length R" using fl by simp
    from less.hyps[OF this inv1]
    obtain f' where "peel_loop f1 = Some (Inr (True, f'))" and "peel_inv n K POS NEG s f' []"
      by blast
    moreover have "peel_loop f = peel_loop f1"
      using sc True by (subst peel_loop.simps) (simp add: len)
    ultimately show ?thesis by auto
  next
    case False
    then have "\<not> length R1 < length R" using fl by simp
    moreover have "length R1 \<le> length R" using s1 by (rule list_emb_length)
    ultimately have "length R1 = length R" by simp
    then have r1: "R1 = R" using s1 by (intro subseq_same_length)
    then have none: "\<forall>i \<in> set [0 ..< n]. length (keys_at n i R) \<noteq> 1" using e by simp
    have "subseq R K" using less.prems by (simp add: peel_inv_def)
    then have "R \<in> set (subseqs K)" by simp
    then have "R = []" using pe none unfolding peelable_def by blast
    then have "peel_inv n K POS NEG s f1 []" using inv1 r1 by simp
    moreover have "peel_loop f = Some (Inr (True, f1))"
      using sc False by (subst peel_loop.simps) (simp add: len)
    ultimately show ?thesis by blast
  qed
qed

lemma sub_entry_common:
  "sub_entry (fold (update_entry 1) cs e1) (fold (update_entry 1) cs e2) = sub_entry e1 e2"
proof (induction cs arbitrary: e1 e2)
  case Nil
  show ?case by simp
next
  case (Cons c cs)
  have "sub_entry (update_entry 1 c e1) (update_entry 1 c e2) = sub_entry e1 e2"
    by (simp add: sub_entry_update_left sub_entry_update_right update_entry_inverse)
  then show ?case by (simp add: Cons.IH)
qed

lemma sub_entry_fold_right:
  "sub_entry e (fold (update_entry 1) q z) = fold (update_entry (- 1)) q (sub_entry e z)"
  by (induction q arbitrary: z) (simp_all add: sub_entry_update_right)

lemma sub_entry_zero_right [simp]: "sub_entry e zeroEntry = e"
  by (simp add: sub_entry_def zeroEntry_def)

lemma cell_of_signed:
  "cell_of (signed_keys p q) = fold (update_entry (- 1)) q (fold (update_entry 1) p zeroEntry)"
  by (simp add: cell_of_def signed_keys_def fold_map comp_def)

lemma sub_entry_difference:
  assumes p: "mset p = mset us - mset vs" and q: "mset q = mset vs - mset us"
  shows "sub_entry (fold (update_entry 1) us zeroEntry) (fold (update_entry 1) vs zeroEntry) =
           cell_of (signed_keys p q)"
proof -
  obtain cs where cs: "mset cs = mset us \<inter># mset vs" using ex_mset by blast
  have mu: "mset us = mset (p @ cs)" and mv: "mset vs = mset (q @ cs)"
    unfolding mset_append p q cs by (auto simp: multiset_eq_iff min_def)
  have u: "fold (update_entry 1) us = fold (update_entry 1) (p @ cs)"
    using mu by (rule fold_update_entry_mset)
  have v: "fold (update_entry 1) vs = fold (update_entry 1) (q @ cs)"
    using mv by (rule fold_update_entry_mset)
  have "sub_entry (fold (update_entry 1) (p @ cs) zeroEntry)
                  (fold (update_entry 1) (q @ cs) zeroEntry) =
        sub_entry (fold (update_entry 1) cs (fold (update_entry 1) p zeroEntry))
                  (fold (update_entry 1) cs (fold (update_entry 1) q zeroEntry))"
    by simp
  also have "\<dots> = sub_entry (fold (update_entry 1) p zeroEntry)
                             (fold (update_entry 1) q zeroEntry)"
    by (rule sub_entry_common)
  also have "\<dots> = fold (update_entry (- 1)) q
                      (sub_entry (fold (update_entry 1) p zeroEntry) zeroEntry)"
    by (rule sub_entry_fold_right)
  also have "\<dots> = cell_of (signed_keys p q)"
    by (simp add: cell_of_signed)
  finally show ?thesis unfolding u v .
qed

lemma keys_at_signed:
  "keys_at n j (signed_keys ps ns) =
     signed_keys (filter (\<lambda>k. touched (replicate n zeroEntry) k j) ps)
            (filter (\<lambda>k. touched (replicate n zeroEntry) k j) ns)"
  by (simp add: keys_at_def signed_keys_def filter_map comp_def)

lemma difference_residue:
  assumes n3: "n div N_HASH \<noteq> 0"
    and d: "minus_iblt (fold (update_cells 1) xs (replicate n zeroEntry))
                       (fold (update_cells 1) ys (replicate n zeroEntry)) = Inr d"
    and ps: "mset ps = mset xs - mset ys" and ns: "mset ns = mset ys - mset xs"
  shows "d = residue n (signed_keys ps ns)"
proof (rule nth_equalityI)
  note m = minus_iblt_nth[OF d]
  show l: "length d = length (residue n (signed_keys ps ns))" using m by simp
  fix j assume "j < length d"
  then have j: "j < n" using l by simp
  let ?T = "\<lambda>k. touched (replicate n zeroEntry) k j"
  have "mset (filter ?T ps) = mset (filter ?T xs) - mset (filter ?T ys)"
    and "mset (filter ?T ns) = mset (filter ?T ys) - mset (filter ?T xs)"
    by (simp_all add: ps ns)
  then have "sub_entry (fold (update_entry 1) (filter ?T xs) zeroEntry)
                       (fold (update_entry 1) (filter ?T ys) zeroEntry) =
             cell_of (signed_keys (filter ?T ps) (filter ?T ns))"
    by (rule sub_entry_difference)
  then show "d ! j = residue n (signed_keys ps ns) ! j"
    using m n3 j by (simp add: nth_fold_update_cells nth_residue keys_at_signed)
qed

lemma pos_keys_signed: "pos_keys (signed_keys ps ns) = set ps"
  by (auto simp: pos_keys_def signed_keys_def image_iff)

lemma neg_keys_signed: "neg_keys (signed_keys ps ns) = set ns"
proof -
  have "(- 1 :: i32) \<noteq> 1" by simp
  then show ?thesis
    by (auto simp: neg_keys_def signed_keys_def image_iff intro!: exI[of _ "- 1"])
qed

lemma residue_Nil [simp]: "residue n [] = replicate n zeroEntry"
  by (simp add: residue_def)

lemma listEntries_residue:
  assumes n3: "n div N_HASH \<noteq> 0"
    and h: "no_false_cells n (signed_keys ps ns)" and pe: "peelable n (signed_keys ps ns)"
  shows "\<exists>f. listEntries (residue n (signed_keys ps ns)) {} {} = Some (Inr (True, f)) \<and>
             positive f = set ps \<and> negative f = set ns"
proof -
  let ?K = "signed_keys ps ns"
  let ?d = "residue n ?K"
  let ?f = "\<lparr>self = ?d, peeled = ?d, positive = {}, negative = {}, peeledSomething = False\<rparr>"
  have sg: "\<forall>x \<in> set ?K. fst x = 1 \<or> fst x = - 1" by (auto simp: signed_keys_def)
  have inv: "peel_inv n ?K (set ps) (set ns) ?d ?f ?K"
    by (simp add: peel_inv_def pos_keys_signed neg_keys_signed)
  from peel_loop_inv[OF n3 sg h pe inv]
  obtain f' where r: "peel_loop ?f = Some (Inr (True, f'))"
    and i: "peel_inv n ?K (set ps) (set ns) ?d f' []"
    by blast
  have "positive f' = set ps" and "negative f' = set ns"
    using i by (simp_all add: peel_inv_def pos_keys_def neg_keys_def)
  then show ?thesis using r by (simp add: listEntries_def)
qed

text \<open>
  C1 (as amended). For tables \<open>a\<close> and \<open>b\<close> of the same size, built by inserting the
  keys of \<open>xs\<close> and of \<open>ys\<close> into new tables, whose difference (the keys \<open>ps\<close> of \<open>xs\<close>
  that are not in \<open>ys\<close> and the keys \<open>ns\<close> of \<open>ys\<close> that are not in \<open>xs\<close>, counted
  with multiplicity) is within the capacity of the table, that is, it can be peeled
  and no cell that holds several of its keys passes for pure or for empty:
  \<open>(a - b).listEntries(pos, neg)\<close> returns true, with \<open>pos\<close> the keys of \<open>xs\<close> that are
  not in \<open>ys\<close> and \<open>neg\<close> the keys of \<open>ys\<close> that are not in \<open>xs\<close>.
\<close>

theorem listEntries_difference:
  assumes a: "insert_all xs (new_table ea) = Inr a"
    and b: "insert_all ys (new_table eb) = Inr b"
    and d: "minus_iblt a b = Inr d"
    and ps: "mset ps = mset xs - mset ys" and ns: "mset ns = mset ys - mset xs"
    and pe: "peelable (length d) (signed_keys ps ns)"
    and h: "no_false_cells (length d) (signed_keys ps ns)"
  shows "\<exists>f. listEntries d {} {} = Some (Inr (True, f)) \<and>
             positive f = set_mset (mset xs - mset ys) \<and>
             negative f = set_mset (mset ys - mset xs)"
proof -
  define n where "n = length (new_table ea)"
  have la: "length a = n" using insert_all_length[OF a] by (simp add: n_def)
  have lb: "length b = length (new_table eb)" using insert_all_length[OF b] .
  have ab: "length a = length b" using d by (auto simp: minus_iblt_def split: if_splits)
  have ld: "length d = n" using minus_iblt_nth[OF d] la by simp
  have za: "new_table ea = replicate n zeroEntry" and zb: "new_table eb = replicate n zeroEntry"
    using ab la lb new_table_replicate[of ea] new_table_replicate[of eb] by (simp_all add: n_def)
  have sp: "set ps = set_mset (mset xs - mset ys)" and sn: "set ns = set_mset (mset ys - mset xs)"
    unfolding ps[symmetric] ns[symmetric] by simp_all
  show ?thesis
  proof (cases "xs = [] \<and> ys = []")
    case True
    then have "a = replicate n zeroEntry" and "b = replicate n zeroEntry"
      using a b unfolding za zb by simp_all
    then have "minus_iblt a a = Inr d" using d by simp
    then have "d = replicate n zeroEntry" using la by (simp add: minus_iblt_self)
    then show ?thesis using True by (simp add: listEntries_zero_table)
  next
    case False
    then have n3: "n div N_HASH \<noteq> 0"
      using insert_all_Inr_D[OF a] insert_all_Inr_D[OF b] unfolding za zb by auto
    have "a = fold (update_cells 1) xs (replicate n zeroEntry)"
      and "b = fold (update_cells 1) ys (replicate n zeroEntry)"
      using n3 a b unfolding za zb by (simp_all add: insert_all_fold)
    then have "d = residue n (signed_keys ps ns)"
      using difference_residue[OF n3 _ ps ns] d by simp
    then show ?thesis
      using listEntries_residue[OF n3 h[unfolded ld] pe[unfolded ld]] sp sn by simp
  qed
qed

text \<open>A difference of at most one key is within the capacity of every table of three
  cells or more.\<close>

lemma capacity_one_key:
  assumes n3: "n div N_HASH \<noteq> 0" and l: "length ps + length ns \<le> 1"
  shows "peelable n (signed_keys ps ns)" and "no_false_cells n (signed_keys ps ns)"
proof -
  let ?z = "replicate n zeroEntry"
  have lk: "length (signed_keys ps ns) \<le> 1" using l by (simp add: signed_keys_def)
  show "peelable n (signed_keys ps ns)"
    unfolding peelable_def
  proof (intro ballI impI)
    fix S assume "S \<in> set (subseqs (signed_keys ps ns))" and ne: "S \<noteq> []"
    then have "subseq S (signed_keys ps ns)" by simp
    then have "length S \<le> 1" using lk list_emb_length[of "(=)" S "signed_keys ps ns"] by simp
    then obtain x where S: "S = [x]" using ne by (cases S) auto
    let ?j = "cell_index (n div N_HASH) 0 (snd x)"
    have "?j < n" using cell_index_less[of ?z 0 "snd x"] n3 by simp
    moreover have "touched ?z (snd x) ?j" using touched_cell_index[of 0 ?z "snd x"] by simp
    then have "length (keys_at n ?j S) = 1" by (simp add: S keys_at_def)
    ultimately show "\<exists>j \<in> set [0 ..< n]. length (keys_at n j S) = 1" by auto
  qed
  show "no_false_cells n (signed_keys ps ns)"
    unfolding no_false_cells_def
  proof (intro ballI impI)
    fix j S assume "S \<in> set (subseqs (keys_at n j (signed_keys ps ns)))" and 2: "2 \<le> length S"
    then have "subseq S (keys_at n j (signed_keys ps ns))" by simp
    then have "length S \<le> length (keys_at n j (signed_keys ps ns))" by (rule list_emb_length)
    also have "\<dots> \<le> length (signed_keys ps ns)" by (simp add: keys_at_def)
    finally have False using lk 2 by simp
    then show "\<not> isPure (cell_of S) \<and> \<not> isEmpty (cell_of S)" ..
  qed
qed

lemmas murmur_defs = murmurHash3_u32_def murmurHash3_def bytes_of_u32_def fmix_def mix_block_def
  mix_k1_def ROTL32_def block32_def c1_def c2_def Let_def

lemma hash_271: "murmurHash3_u32 0 271 = 3469322620" "murmurHash3_u32 1 271 = 547318929"
  "murmurHash3_u32 2 271 = 2419590520"
  by (simp_all add: murmur_defs)

lemma hash_564: "murmurHash3_u32 0 564 = 151179202" "murmurHash3_u32 1 564 = 3745376978"
  "murmurHash3_u32 2 564 = 983379684"
  by (simp_all add: murmur_defs)

lemma cells_271: "cell_index 43 0 271 = 17" "cell_index 43 1 271 = 51" "cell_index 43 2 271 = 128"
  by (simp_all add: cell_index_def hash_271)

lemma cells_564: "cell_index 43 0 564 = 17" "cell_index 43 1 564 = 51" "cell_index 43 2 564 = 128"
  by (simp_all add: cell_index_def hash_564)

lemma new_table_85: "new_table 85 = replicate 129 zeroEntry"
  by (simp add: new_table_def nEntries_of_85)

lemma touched_271_564:
  "touched (replicate 129 zeroEntry) 564 j = touched (replicate 129 zeroEntry) 271 j"
  by (simp add: touched_def N_HASH_def cells_271 cells_564 del: One_nat_def)

lemma nth_colliding_table:
  assumes "j < 129"
  shows "count (colliding_table ! j) = (if touched (replicate 129 zeroEntry) 271 j then 2 else 0)"
proof -
  have "colliding_table ! j =
          (if touched (replicate 129 zeroEntry) 271 j
           then update_entry 1 564 (update_entry 1 271 zeroEntry) else zeroEntry)"
    using assms
    by (simp add: colliding_table_def new_table_85 nth_update_cells N_HASH_def touched_271_564)
  then show ?thesis by (simp add: update_entry_def zeroEntry_def)
qed

lemma length_colliding_table: "length colliding_table = 129"
  by (simp add: colliding_table_def new_table_85)

lemma not_pure_colliding_table:
  assumes "j < length colliding_table"
  shows "\<not> isPure (colliding_table ! j)"
  using assms nth_colliding_table[of j] by (simp add: isPure_def length_colliding_table)

lemma minus_iblt_zero:
  "minus_iblt t (replicate (length t) zeroEntry) = Inr t"
proof -
  have "map (\<lambda>i. sub_entry (t ! i) (replicate (length t) zeroEntry ! i)) [0 ..< length t] = t"
    by (rule nth_equalityI) (simp_all add: sub_entry_def zeroEntry_def)
  then show ?thesis by (simp add: minus_iblt_def)
qed

text \<open>
  C1 as stated fails already for two keys in the engine's default table of 129 cells
  (85 expected entries): the keys 271 and 564 share their three cells, which then hold
  count 2, no cell is pure, and \<open>listEntries\<close> returns true with both sets empty.
\<close>

theorem listEntries_colliding_keys:
  "insert_all [271, 564] (new_table 85) = Inr colliding_table \<and>
   insert_all [] (new_table 85) = Inr (new_table 85) \<and>
   minus_iblt colliding_table (new_table 85) = Inr colliding_table \<and>
   listEntries colliding_table {} {} =
     Some (Inr (True, \<lparr>self = colliding_table, peeled = colliding_table, positive = {},
                      negative = {}, peeledSomething = False\<rparr>)) \<and>
   set_mset (mset [271, 564 :: u32] - mset []) = {271, 564}"
proof -
  have "length (replicate 129 zeroEntry) div N_HASH \<noteq> 0" by (simp add: N_HASH_def)
  then have "insert_all [271, 564] (replicate 129 zeroEntry) =
               Inr (fold (update_cells 1) [271, 564] (replicate 129 zeroEntry))"
    by (rule insert_all_fold)
  then have "insert_all [271, 564] (new_table 85) = Inr colliding_table"
    by (simp only: new_table_85 colliding_table_def fold_simps id_apply o_apply)
  moreover have "minus_iblt colliding_table (new_table 85) = Inr colliding_table"
    using minus_iblt_zero[of colliding_table] by (simp add: length_colliding_table new_table_85)
  moreover have "listEntries colliding_table {} {} =
     Some (Inr (True, \<lparr>self = colliding_table, peeled = colliding_table, positive = {},
                      negative = {}, peeledSomething = False\<rparr>))"
    by (rule listEntries_no_pure) (rule not_pure_colliding_table)
  ultimately show ?thesis by simp
qed

lemma insert_all_five: "insert_all [5] (new_table 1) = Inr plus_five"
  by (simp add: insert_five)

lemma minus_plus_five: "minus_iblt plus_five (new_table 1) = Inr plus_five"
  using minus_iblt_zero[of plus_five] by (simp add: plus_five_def new_table_1 replicate3)

lemma hash_1: "murmurHash3_u32 0 1 = 4226891818" "murmurHash3_u32 1 1 = 1578231156"
  "murmurHash3_u32 2 1 = 332615954"
  by (simp_all add: murmur_defs)

lemma hash_2: "murmurHash3_u32 0 2 = 1085422463" "murmurHash3_u32 1 2 = 3684335244"
  "murmurHash3_u32 2 2 = 752811296"
  by (simp_all add: murmur_defs)

lemma hash_4: "murmurHash3_u32 0 4 = 1889779975" "murmurHash3_u32 1 4 = 1445381879"
  "murmurHash3_u32 2 4 = 492697557"
  by (simp_all add: murmur_defs)

lemma cells_1: "cell_index 2 0 1 = 0" "cell_index 2 1 1 = 2" "cell_index 2 2 1 = 4"
  by (simp_all add: cell_index_def hash_1)

lemma cells_2: "cell_index 2 0 2 = 1" "cell_index 2 1 2 = 2" "cell_index 2 2 2 = 4"
  by (simp_all add: cell_index_def hash_2)

lemma cells_4: "cell_index 2 0 4 = 1" "cell_index 2 1 4 = 3" "cell_index 2 2 4 = 5"
  by (simp_all add: cell_index_def hash_4)

lemma touched_6:
  "touched (replicate 6 zeroEntry) 1 j = (j = 0 \<or> j = 2 \<or> j = 4)"
  "touched (replicate 6 zeroEntry) 2 j = (j = 1 \<or> j = 2 \<or> j = 4)"
  "touched (replicate 6 zeroEntry) 4 j = (j = 1 \<or> j = 3 \<or> j = 5)"
  by (simp_all add: touched_def N_HASH_def cells_1 cells_2 cells_4 del: One_nat_def)

lemma upt_6: "[0 ..< 6] = [0, 1, 2, 3, 4, 5]"
  by (simp add: upt_rec)

lemma new_table_4: "new_table 4 = replicate 6 zeroEntry"
  by (simp add: new_table_def nEntries_of_def)

lemma peelable_124: "peelable 6 (signed_keys [1, 2] [4])"
  by (simp add: peelable_def signed_keys_def keys_at_def touched_6 upt_6 Let_def)

lemma keys_at_124:
  "keys_at 6 0 (signed_keys [1, 2] [4]) = [(1, 1)]"
  "keys_at 6 1 (signed_keys [1, 2] [4]) = [(1, 2), (- 1, 4)]"
  "keys_at 6 2 (signed_keys [1, 2] [4]) = [(1, 1), (1, 2)]"
  "keys_at 6 3 (signed_keys [1, 2] [4]) = [(- 1, 4)]"
  "keys_at 6 4 (signed_keys [1, 2] [4]) = [(1, 1), (1, 2)]"
  "keys_at 6 5 (signed_keys [1, 2] [4]) = [(- 1, 4)]"
  by (simp_all add: signed_keys_def keys_at_def touched_6)

lemma cell_of_two_plus:
  "\<not> isPure (cell_of [(1, k), (1, k')])" "\<not> isEmpty (cell_of [(1, k), (1, k')])"
  by (simp_all add: cell_of_def update_entry_def zeroEntry_def isPure_def isEmpty_def)

lemma cell_of_plus_minus:
  "\<not> isPure (cell_of [(1, k), (- 1, k')])"
  "k XOR k' \<noteq> 0 \<Longrightarrow> \<not> isEmpty (cell_of [(1, k), (- 1, k')])"
  by (simp_all add: cell_of_def update_entry_def zeroEntry_def isPure_def isEmpty_def)

lemma no_false_cells_124: "no_false_cells 6 (signed_keys [1, 2] [4])"
  unfolding no_false_cells_def upt_6
  by (simp add: keys_at_124 cell_of_two_plus cell_of_plus_minus del: One_nat_def)

text \<open>
  The keys 1, 2, 3 and the keys 3, 4 in tables of six cells (\<open>IBLT(4)\<close>): key 1 is
  alone in cell 0; cell 2 holds the keys 1 and 2 and is pure only once key 1 has
  been peeled.
\<close>

theorem listEntries_difference_witness:
  "\<exists>a b d. insert_all [1, 2, 3] (new_table 4) = Inr a \<and>
            insert_all [3, 4] (new_table 4) = Inr b \<and> minus_iblt a b = Inr d \<and>
            mset [1, 2] = mset [1, 2, 3] - mset [3, 4 :: u32] \<and>
            mset [4] = mset [3, 4] - mset [1, 2, 3 :: u32] \<and>
            peelable (length d) (signed_keys [1, 2] [4]) \<and>
            no_false_cells (length d) (signed_keys [1, 2] [4]) \<and>
            (\<exists>f. listEntries d {} {} = Some (Inr (True, f)) \<and> positive f = {1, 2} \<and>
                 negative f = {4})"
proof -
  have n3: "length (new_table 4) div N_HASH \<noteq> 0" by (simp add: new_table_4 N_HASH_def)
  define a where "a = fold (update_cells 1) [1, 2, 3] (new_table 4)"
  define b where "b = fold (update_cells 1) [3, 4] (new_table 4)"
  define d where "d = map (\<lambda>i. sub_entry (a ! i) (b ! i)) [0 ..< length a]"
  have a: "insert_all [1, 2, 3] (new_table 4) = Inr a"
    unfolding a_def using n3 by (rule insert_all_fold)
  have b: "insert_all [3, 4] (new_table 4) = Inr b"
    unfolding b_def using n3 by (rule insert_all_fold)
  have la: "length a = 6" and lb: "length b = 6" by (simp_all add: a_def b_def new_table_4)
  have d: "minus_iblt a b = Inr d" by (simp add: minus_iblt_def la lb d_def)
  have ld: "length d = 6" by (simp add: d_def la)
  have ps: "mset [1, 2] = mset [1, 2, 3] - mset [3, 4 :: u32]" by simp
  have ns: "mset [4] = mset [3, 4] - mset [1, 2, 3 :: u32]" by simp
  have pe: "peelable (length d) (signed_keys [1, 2] [4])" unfolding ld by (rule peelable_124)
  have h: "no_false_cells (length d) (signed_keys [1, 2] [4])"
    unfolding ld by (rule no_false_cells_124)
  from listEntries_difference[OF a b d ps ns pe h]
  obtain f where "listEntries d {} {} = Some (Inr (True, f))"
    and "positive f = set_mset (mset [1, 2, 3] - mset [3, 4 :: u32])"
    and "negative f = set_mset (mset [3, 4] - mset [1, 2, 3 :: u32])"
    by blast
  then have ex: "\<exists>f. listEntries d {} {} = Some (Inr (True, f)) \<and> positive f = {1, 2} \<and>
                 negative f = {4}"
    unfolding ps[symmetric] ns[symmetric] by auto
  have "insert_all [1, 2, 3] (new_table 4) = Inr a \<and>
            insert_all [3, 4] (new_table 4) = Inr b \<and> minus_iblt a b = Inr d \<and>
            mset [1, 2] = mset [1, 2, 3] - mset [3, 4 :: u32] \<and>
            mset [4] = mset [3, 4] - mset [1, 2, 3 :: u32] \<and>
            peelable (length d) (signed_keys [1, 2] [4]) \<and>
            no_false_cells (length d) (signed_keys [1, 2] [4]) \<and>
            (\<exists>f. listEntries d {} {} = Some (Inr (True, f)) \<and> positive f = {1, 2} \<and>
                 negative f = {4})"
    by (intro conjI) (rule a b d ps ns pe h ex)+
  then show ?thesis by (intro exI)
qed

lemma hash_8486: "murmurHash3_u32 0 8486 = 3370294280" "murmurHash3_u32 1 8486 = 974537935"
  "murmurHash3_u32 2 8486 = 2492975378" "murmurHash3_u32 11 8486 = 376512020"
  by (simp_all add: murmur_defs)

lemma hash_8500: "murmurHash3_u32 0 8500 = 3805239754" "murmurHash3_u32 1 8500 = 2780603284"
  "murmurHash3_u32 2 8500 = 409058843" "murmurHash3_u32 11 8500 = 4257196998"
  by (simp_all add: murmur_defs)

lemma hash_101500: "murmurHash3_u32 0 101500 = 3887138274"
  "murmurHash3_u32 1 101500 = 2249445082" "murmurHash3_u32 2 101500 = 2947488146"
  "murmurHash3_u32 11 101500 = 2180411541"
  by (simp_all add: murmur_defs)

lemma hash_101486: "murmurHash3_u32 0 101486 = 2766101581"
  "murmurHash3_u32 11 101486 = 1782105415"
  by (simp_all add: murmur_defs)

lemma cells_8486: "cell_index 2 0 8486 = 0" "cell_index 2 1 8486 = 3" "cell_index 2 2 8486 = 4"
  by (simp_all add: cell_index_def hash_8486)

lemma cells_8500: "cell_index 2 0 8500 = 0" "cell_index 2 1 8500 = 2" "cell_index 2 2 8500 = 5"
  by (simp_all add: cell_index_def hash_8500)

lemma cells_101500:
  "cell_index 2 0 101500 = 0" "cell_index 2 1 101500 = 2" "cell_index 2 2 101500 = 4"
  by (simp_all add: cell_index_def hash_101500)

lemma cell_101486: "cell_index 2 0 101486 = 1"
  by (simp add: cell_index_def hash_101486)

lemma touched_6_false_pure:
  "touched (replicate 6 zeroEntry) 8486 j = (j = 0 \<or> j = 3 \<or> j = 4)"
  "touched (replicate 6 zeroEntry) 8500 j = (j = 0 \<or> j = 2 \<or> j = 5)"
  "touched (replicate 6 zeroEntry) 101500 j = (j = 0 \<or> j = 2 \<or> j = 4)"
  by (simp_all add: touched_def N_HASH_def cells_8486 cells_8500 cells_101500
      del: One_nat_def)

lemma peelable_false_pure: "peelable 6 (signed_keys [8486, 8500] [101500])"
  by (simp add: peelable_def signed_keys_def keys_at_def touched_6_false_pure upt_6 Let_def)

lemma keys_at_false_pure:
  "keys_at 6 0 (signed_keys [8486, 8500] [101500]) = [(1, 8486), (1, 8500), (- 1, 101500)]"
  "keys_at 6 1 (signed_keys [8486, 8500] [101500]) = []"
  by (simp_all add: signed_keys_def keys_at_def touched_6_false_pure)

lemma cell_false_pure:
  "cell_of [(1, 8486), (1, 8500), (- 1, 101500)] = single 1 101486"
  by (simp add: cell_of_def update_entry_def zeroEntry_def single_def N_HASHCHECK_def
      hash_8486 hash_8500 hash_101500 hash_101486)

text \<open>
  C1 as stated also fails for a difference that can be peeled, when a cell that holds
  several keys passes for pure: in tables of six cells the keys 8486 and 8500 of the
  one and 101500 of the other share cell 0, whose count is 1, whose key sum is
  101486 and whose check is the hash of 101486. \<open>listEntries\<close> takes the cell for
  key 101486, finds cell 1 of that key empty and returns false.
\<close>

theorem listEntries_false_pure:
  "\<exists>a b d f. insert_all [8486, 8500] (new_table 4) = Inr a \<and>
              insert_all [101500] (new_table 4) = Inr b \<and> minus_iblt a b = Inr d \<and>
              peelable (length d) (signed_keys [8486, 8500] [101500]) \<and>
              \<not> no_false_cells (length d) (signed_keys [8486, 8500] [101500]) \<and>
              listEntries d {} {} = Some (Inr (False, f))"
proof -
  let ?K = "signed_keys [8486, 8500] [101500]"
  have n3: "length (new_table 4) div N_HASH \<noteq> 0" by (simp add: new_table_4 N_HASH_def)
  have n6: "(6::nat) div N_HASH \<noteq> 0" by (simp add: N_HASH_def)
  define a where "a = fold (update_cells 1) [8486, 8500] (new_table 4)"
  define b where "b = fold (update_cells 1) [101500] (new_table 4)"
  define d where "d = map (\<lambda>i. sub_entry (a ! i) (b ! i)) [0 ..< length a]"
  have a: "insert_all [8486, 8500] (new_table 4) = Inr a"
    unfolding a_def using n3 by (rule insert_all_fold)
  have b: "insert_all [101500] (new_table 4) = Inr b"
    unfolding b_def using n3 by (rule insert_all_fold)
  have la: "length a = 6" and lb: "length b = 6" by (simp_all add: a_def b_def new_table_4)
  have d: "minus_iblt a b = Inr d" by (simp add: minus_iblt_def la lb d_def)
  have ld: "length d = 6" by (simp add: d_def la)
  have ps: "mset [8486, 8500] = mset [8486, 8500] - mset [101500 :: u32]" by simp
  have ns: "mset [101500] = mset [101500] - mset [8486, 8500 :: u32]" by simp
  have d': "minus_iblt (fold (update_cells 1) [8486, 8500] (replicate 6 zeroEntry))
                       (fold (update_cells 1) [101500] (replicate 6 zeroEntry)) = Inr d"
    using d unfolding a_def b_def new_table_4 .
  have r: "d = residue 6 ?K" by (rule difference_residue[OF n6 d' ps ns])
  have c0: "d ! 0 = single 1 101486"
    unfolding r using nth_residue[OF n6, of 0 ?K] by (simp add: keys_at_false_pure cell_false_pure)
  have c1: "d ! 1 = zeroEntry"
    unfolding r using nth_residue[OF n6, of 1 ?K]
    by (simp add: keys_at_false_pure del: One_nat_def)
  have pe: "peelable (length d) ?K" unfolding ld by (rule peelable_false_pure)
  have nf: "\<not> no_false_cells (length d) ?K"
  proof
    assume "no_false_cells (length d) ?K"
    then have "\<not> isPure (cell_of (keys_at 6 0 ?K))"
      unfolding ld by (intro no_false_cellsD(1)[of 6 ?K ?K]) (simp_all add: keys_at_false_pure)
    then show False by (simp add: keys_at_false_pure cell_false_pure isPure_single)
  qed
  let ?f = "\<lparr>self = d, peeled = d, positive = {}, negative = {}, peeledSomething = False\<rparr>"
  have bp: "badPeers d 101486 = Inr True"
    using c1 by (simp add: badPeers_def badPeers_cells_def chkPeer_def Let_def ld N_HASH_def
        cell_101486 del: One_nat_def)
  have v: "visit 0 ?f = Return False ?f"
    by (simp add: visit_def Let_def c0 isPure_single bp)
  have "scan [0 ..< 6] ?f = Return False ?f"
    unfolding upt_6 using v by simp
  then have "peel_loop ?f = Some (Inr (False, ?f))"
    by (subst peel_loop.simps) (simp add: ld)
  then have le: "listEntries d {} {} = Some (Inr (False, ?f))" by (simp add: listEntries_def)
  have "insert_all [8486, 8500] (new_table 4) = Inr a \<and>
              insert_all [101500] (new_table 4) = Inr b \<and> minus_iblt a b = Inr d \<and>
              peelable (length d) ?K \<and> \<not> no_false_cells (length d) ?K \<and>
              listEntries d {} {} = Some (Inr (False, ?f))"
    by (intro conjI) (rule a b d pe nf le)+
  then show ?thesis by (intro exI)
qed

lemma plus_five_update: "plus_five = update_cells 1 5 (replicate 3 zeroEntry)"
  by (simp add: plus_five_def replicate3 update_cells_3 update_entry_zero single_def)

lemma listEntries_plus_five:
  "listEntries plus_five {} {} =
     Some (Inr (True, \<lparr>self = plus_five, peeled = new_table 1, positive = {5}, negative = {},
                      peeledSomething = False\<rparr>))"
proof -
  have "(3::nat) div N_HASH \<noteq> 0" by (simp add: N_HASH_def)
  from listEntries_single_table[OF this, of 1 5 "{}" "{}"] show ?thesis
    by (simp add: plus_five_update new_table_1 replicate3)
qed

text \<open>A call that returns false: the pure cell 0 of \<open>lonely_five\<close> has empty peers.\<close>

lemma listEntries_lonely_five:
  "listEntries lonely_five {} {} =
     Some (Inr (False, \<lparr>self = lonely_five, peeled = lonely_five, positive = {}, negative = {},
                       peeledSomething = False\<rparr>))"
proof -
  have v: "visit 0 \<lparr>self = lonely_five, peeled = lonely_five, positive = {}, negative = {},
                    peeledSomething = False\<rparr>
           = Return False \<lparr>self = lonely_five, peeled = lonely_five, positive = {}, negative = {},
                    peeledSomething = False\<rparr>"
    by (simp add: visit_def Let_def lonely_five_def isPure_single badPeers_def badPeers_cells_3
        N_HASH_def)
  have "[0 ..< length lonely_five] = [0, 1, 2]"
    by (simp add: lonely_five_def upt_rec)
  then show ?thesis
    unfolding listEntries_def by (subst peel_loop.simps) (simp add: v)
qed

theorem listEntries_frame_witness:
  "listEntries plus_five {} {} =
     Some (Inr (True, \<lparr>self = plus_five, peeled = new_table 1, positive = {5}, negative = {},
                      peeledSomething = False\<rparr>)) \<and>
   listEntries lonely_five {} {} =
     Some (Inr (False, \<lparr>self = lonely_five, peeled = lonely_five, positive = {}, negative = {},
                       peeledSomething = False\<rparr>)) \<and>
   self \<lparr>self = plus_five, peeled = new_table 1, positive = {5}, negative = {},
         peeledSomething = False\<rparr> = plus_five"
  using listEntries_frame [OF listEntries_plus_five] listEntries_plus_five listEntries_lonely_five
  by simp

section \<open>Properties of the wire encoding\<close>

text \<open>Four bytes, least significant first, give back the word they were cut from.\<close>

lemma low_bytes_or:
  fixes x :: u32
  shows "push_bit 24 (ucast (ucast (drop_bit 24 x) :: u8)) OR
         push_bit 16 (ucast (ucast (drop_bit 16 x) :: u8)) OR
         push_bit 8 (ucast (ucast (drop_bit 8 x) :: u8)) OR ucast (ucast x :: u8) = x"
    (is "?l = x")
proof (rule bit_eqI)
  fix n
  assume "possible_bit TYPE(u32) n"
  then have n: "n < 32" by (simp add: possible_bit_word)
  consider "n < 8" | "8 \<le> n" "n < 16" | "16 \<le> n" "n < 24" | "24 \<le> n" by linarith
  then show "bit ?l n = bit x n"
    using n by cases (auto simp: bit_simps)
qed

lemma bytes_disjoint:
  fixes a b c d :: u8
  shows "push_bit 24 (ucast a) + push_bit 16 (ucast b) + push_bit 8 (ucast c) + (ucast d :: u32)
       = push_bit 24 (ucast a) OR push_bit 16 (ucast b) OR push_bit 8 (ucast c) OR ucast d"
proof -
  have 1: "push_bit 24 (ucast a) + push_bit 16 (ucast b) = push_bit 24 (ucast a) OR (push_bit 16 (ucast b) :: u32)"
    by (rule disjunctive_add_eq_or) (rule bit_eqI, auto simp: bit_simps dest: bit_imp_le_length)
  have 2: "(push_bit 24 (ucast a) OR push_bit 16 (ucast b)) + push_bit 8 (ucast c)
         = (push_bit 24 (ucast a) OR push_bit 16 (ucast b)) OR (push_bit 8 (ucast c) :: u32)"
    by (rule disjunctive_add_eq_or) (rule bit_eqI, auto simp: bit_simps dest: bit_imp_le_length)
  have 3: "(push_bit 24 (ucast a) OR push_bit 16 (ucast b) OR push_bit 8 (ucast c)) + ucast d
         = (push_bit 24 (ucast a) OR push_bit 16 (ucast b) OR push_bit 8 (ucast c)) OR (ucast d :: u32)"
    by (rule disjunctive_add_eq_or) (rule bit_eqI, auto simp: bit_simps dest: bit_imp_le_length)
  show ?thesis by (simp add: 1 2 3 or.assoc)
qed

lemma signed_byte:
  fixes x :: i32
  assumes "m \<le> 24"
  shows "(ucast (signed_drop_bit m x) :: u8) = ucast (drop_bit m x)"
proof (rule bit_eqI)
  fix n assume "possible_bit TYPE(u8) n"
  then have "n < 8" by (simp add: possible_bit_word)
  then show "bit (ucast (signed_drop_bit m x) :: u8) n = bit (ucast (drop_bit m x) :: u8) n"
    using assms by (auto simp: bit_simps)
qed

lemma word_of_bytes:
  fixes x :: u32
  shows "push_bit 24 (ucast (ucast (drop_bit 24 x) :: u8)) +
         push_bit 16 (ucast (ucast (drop_bit 16 x) :: u8)) +
         push_bit 8 (ucast (ucast (drop_bit 8 x) :: u8)) + ucast (ucast x :: u8) = x"
  by (simp only: bytes_disjoint low_bytes_or)

lemma length_entry_bytes [simp]: "length (entry_bytes e) = 12"
  by (simp add: entry_bytes_def)

lemma length_table_bytes [simp]: "length (table_bytes t) = 12 * length t"
  by (induction t) (simp_all add: table_bytes_def)

lemma table_bytes_Cons: "table_bytes (e # t) = entry_bytes e @ table_bytes t"
  by (simp add: table_bytes_def)

lemma word_at_entry_bytes:
  "word_at (entry_bytes e @ rest) 0 = count e"
  "word_at (entry_bytes e @ rest) 4 = keySum e"
  "word_at (entry_bytes e @ rest) 8 = keyCheck e"
  by (simp_all add: word_at_def entry_bytes_def signed_byte word_of_bytes)

lemma word_at_append:
  "word_at (pre @ rest) (length pre + i) = word_at rest i"
  by (simp add: word_at_def nth_append)

lemma words_of_entry:
  "words_of (entry_bytes e @ rest) = entry_words e @ words_of rest"
proof -
  let ?p = "entry_bytes e @ rest"
  have len: "length ?p div 4 = 3 + length rest div 4" by simp
  have "[0 ..< 3 + length rest div 4] = [0 ..< 3] @ [3 ..< 3 + length rest div 4]"
    by (rule upt_add_eq_append) simp
  moreover have "[0 ..< 3] = [0, 1, 2 :: nat]" by (simp add: upt_rec)
  moreover have "[3 ..< 3 + length rest div 4] = map (\<lambda>j. j + 3) [0 ..< length rest div 4]"
    by (simp only: map_add_upt add.commute)
  ultimately have "[0 ..< 3 + length rest div 4]
      = [0, 1, 2] @ map (\<lambda>j. j + 3) [0 ..< length rest div 4]" by simp
  moreover have "word_at ?p (4 * (j + 3)) = word_at rest (4 * j)" for j
    using word_at_append[of "entry_bytes e" rest "4 * j"] by (simp add: algebra_simps)
  ultimately show ?thesis
    unfolding words_of_def len
    by (simp add: o_def word_at_entry_bytes entry_words_def)
qed

lemma words_of_short: "length extra < 4 \<Longrightarrow> words_of extra = []"
  by (simp add: words_of_def)

lemma words_of_table_bytes:
  assumes "length extra < 4"
  shows "words_of (table_bytes t @ extra) = concat (map entry_words t)"
  using assms by (induction t) (simp_all add: words_of_short table_bytes_Cons words_of_entry)

lemma length_concat_entry_words [simp]: "length (concat (map entry_words t)) = 3 * length t"
  by (induction t) (simp_all add: entry_words_def)

lemma nth_concat_entry_words:
  assumes "i < length t"
  shows "concat (map entry_words t) ! (i * 3) = count (t ! i)"
    and "concat (map entry_words t) ! (i * 3 + 1) = keySum (t ! i)"
    and "concat (map entry_words t) ! (i * 3 + 2) = keyCheck (t ! i)"
  using assms
proof (induction t arbitrary: i)
  case Nil
  { case 1 then show ?case by simp }
  { case 2 then show ?case by simp }
  { case 3 then show ?case by simp }
next
  case (Cons e t)
  { case 1 then show ?case using Cons.IH(1)[of "i - 1"]
      by (cases i) (simp_all add: entry_words_def nth_append) }
  { case 2 then show ?case using Cons.IH(2)[of "i - 1"]
      by (cases i) (simp_all add: entry_words_def nth_append) }
  { case 3 then show ?case using Cons.IH(3)[of "i - 1"]
      by (cases i) (simp_all add: entry_words_def nth_append) }
qed

lemma extractValueFromName_words:
  "extractValueFromName inflate c =
     (case inflate c of None \<Rightarrow> Inl ZlibError | Some p \<Rightarrow> Inr (words_of p))"
  by (simp add: extractValueFromName_def words_of_def split: option.splits)

lemma initialize_payload:
  assumes c: "inflate c = Some (table_bytes t @ extra)" and x: "length extra < 4"
    and l: "length t0 = length t"
  shows "initialize inflate t0 c =
           Inr (map (\<lambda>i. if count (t ! i) \<noteq> 0 then t ! i else t0 ! i) [0 ..< length t])"
proof -
  have w: "extractValueFromName inflate c = Inr (concat (map entry_words t))"
    using c x by (simp add: extractValueFromName_words words_of_table_bytes)
  have "map (\<lambda>i. if concat (map entry_words t) ! (i * 3) \<noteq> 0
                   then \<lparr>count = concat (map entry_words t) ! (i * 3),
                         keySum = concat (map entry_words t) ! (i * 3 + 1),
                         keyCheck = concat (map entry_words t) ! (i * 3 + 2)\<rparr>
                   else t0 ! i) [0 ..< length t]
        = map (\<lambda>i. if count (t ! i) \<noteq> 0 then t ! i else t0 ! i) [0 ..< length t]"
  proof (rule map_cong)
    fix i assume "i \<in> set [0 ..< length t]"
    then have "i < length t" by simp
    from nth_concat_entry_words[OF this]
    show "(if concat (map entry_words t) ! (i * 3) \<noteq> 0
           then \<lparr>count = concat (map entry_words t) ! (i * 3),
                 keySum = concat (map entry_words t) ! (i * 3 + 1),
                 keyCheck = concat (map entry_words t) ! (i * 3 + 2)\<rparr>
           else t0 ! i) = (if count (t ! i) \<noteq> 0 then t ! i else t0 ! i)"
      by simp
  qed simp
  then show ?thesis using l by (simp add: initialize_def w)
qed

lemma initialize_accepts_iff:
  "(\<exists>t'. initialize inflate t c = Inr t') =
     (\<exists>p. inflate c = Some p \<and> length p div 4 = 3 * length t)"
  by (auto simp: initialize_def extractValueFromName_def Let_def split: option.splits)

lemma check_hashes:
  "murmurHash3_u32 N_HASHCHECK 0 = 4187786506"
  "murmurHash3_u32 N_HASHCHECK 1 = 3314192471"
  "murmurHash3_u32 N_HASHCHECK 2 = 3880271716"
  "murmurHash3_u32 N_HASHCHECK 3 = 727523823"
  "murmurHash3_u32 N_HASHCHECK 4 = 2770470685"
  by (simp_all add: N_HASHCHECK_def murmur_defs)

lemma initialize_roundtrip:
  assumes codec: "\<And>bs. inflate (deflate bs) = Some bs" and l: "length t0 = length t"
  shows "initialize inflate t0 (last (appendToName deflate t name)) =
           Inr (map (\<lambda>i. if count (t ! i) \<noteq> 0 then t ! i else t0 ! i) [0 ..< length t])"
proof -
  have "inflate (last (appendToName deflate t name)) = Some (table_bytes t @ [])"
    by (simp add: appendToName_def codec)
  from initialize_payload[of inflate "last (appendToName deflate t name)" t "[]" t0, OF this _ l]
  show ?thesis by simp
qed

lemma isEmpty_zeroEntry_eq: "isEmpty e = (e = zeroEntry)"
  by (cases e) (auto simp: isEmpty_def zeroEntry_def)

text \<open>
  C2 (as amended). With a compressor and a decompressor that undo each other,
  \<open>appendToName\<close> followed by \<open>initialize\<close> on a new table of the same number of
  cells gives back every cell of \<open>t\<close>, provided every cell of \<open>t\<close> whose count is 0 is
  empty. (In general a cell with count 0 comes back as the empty cell:
  \<open>initialize_roundtrip\<close>.)
\<close>

theorem appendToName_initialize:
  assumes "\<And>bs. inflate (deflate bs) = Some bs"
    and "length (new_table e) = length t"
    and "\<forall>c \<in> set t. count c = 0 \<longrightarrow> isEmpty c"
  shows "initialize inflate (new_table e) (last (appendToName deflate t name)) = Inr t"
proof -
  have "map (\<lambda>i. if count (t ! i) \<noteq> 0 then t ! i else new_table e ! i) [0 ..< length t] = t"
  proof (rule nth_equalityI)
    show "length (map (\<lambda>i. if count (t ! i) \<noteq> 0 then t ! i else new_table e ! i) [0 ..< length t])
          = length t" by simp
  next
    fix i assume "i < length (map (\<lambda>i. if count (t ! i) \<noteq> 0 then t ! i else new_table e ! i)
                      [0 ..< length t])"
    then have i: "i < length t" by simp
    then have z: "new_table e ! i = zeroEntry"
      using assms(2) by (simp add: new_table_def)
    have "count (t ! i) = 0 \<Longrightarrow> t ! i = zeroEntry"
      using assms(3) i by (simp add: isEmpty_zeroEntry_eq)
    then show "map (\<lambda>i. if count (t ! i) \<noteq> 0 then t ! i else new_table e ! i) [0 ..< length t] ! i
               = t ! i"
      using i z by auto
  qed
  then show ?thesis
    using initialize_roundtrip[of inflate deflate "new_table e" t name] assms(1,2) by simp
qed

theorem appendToName_initialize_witness:
  "(\<forall>bs :: u8 list. Some ((\<lambda>bs. bs) bs) = Some bs) \<and>
   length (new_table 1) = length plus_five \<and>
   initialize Some (new_table 1) (last (appendToName (\<lambda>bs. bs) plus_five [])) = Inr plus_five"
proof -
  have l: "length (new_table 1) = length plus_five" by (simp add: new_table_1 plus_five_def)
  have c: "\<forall>c \<in> set plus_five. count c = 0 \<longrightarrow> isEmpty c" by (simp add: plus_five_def)
  show ?thesis
    using appendToName_initialize [of Some "\<lambda>bs. bs" 1 plus_five "[]", OF _ l c] l by simp
qed

lemma build_unbalanced:
  "insert_all [1, 2] (new_table 1) = Inr two_keys"
  "erase 3 two_keys = Inr three_keys"
  "erase 4 three_keys = Inr unbalanced"
  by (simp_all add: new_table_1 insert_key_def update_def update_cells_3 INSERT_def ERASE_def
      two_keys_def three_keys_def unbalanced_def replicate3 update_entry_def zeroEntry_def
      N_HASH_def erase_def badPeers_def badPeers_cells_3 isEmpty_def isPure_def check_hashes)

text \<open>
  C2 as stated fails on the table \<open>unbalanced\<close>, which \<open>IBLT(1)\<close> reaches by
  \<open>insert(1)\<close>, \<open>insert(2)\<close>, \<open>erase(3)\<close>, \<open>erase(4)\<close> (neither \<open>erase\<close> is stopped
  by \<open>badPeers\<close>): its cells have count 0 and keySum 4, and \<open>initialize\<close> leaves them
  empty. The codec here leaves the bytes as they are; by \<open>initialize_roundtrip\<close> any
  other one gives the same table.
\<close>

theorem appendToName_initialize_drops_cells:
  "insert_all [1, 2] (new_table 1) = Inr two_keys \<and>
   erase 3 two_keys = Inr three_keys \<and>
   erase 4 three_keys = Inr unbalanced \<and>
   initialize Some (new_table 1) (last (appendToName (\<lambda>bs. bs) unbalanced [])) =
     Inr (new_table 1) \<and>
   unbalanced \<noteq> new_table 1"
proof -
  have l: "length (new_table 1) = length unbalanced" by (simp add: new_table_1 unbalanced_def)
  have "initialize Some (new_table 1) (last (appendToName (\<lambda>bs. bs) unbalanced [])) =
          Inr (map (\<lambda>i. if count (unbalanced ! i) \<noteq> 0 then unbalanced ! i else new_table 1 ! i)
                 [0 ..< length unbalanced])"
    using l by (intro initialize_roundtrip) simp_all
  also have "\<dots> = Inr (new_table 1)"
    by (simp add: unbalanced_def new_table_1 replicate3 upt_rec)
  finally have r: "initialize Some (new_table 1) (last (appendToName (\<lambda>bs. bs) unbalanced [])) =
     Inr (new_table 1)" .
  have n: "unbalanced \<noteq> new_table 1"
    by (simp add: unbalanced_def new_table_1 replicate3 zeroEntry_def)
  show ?thesis
    using build_unbalanced r n by (intro conjI)
qed

text \<open>
  C3. \<open>initialize\<close> is to reject every payload whose decompressed length is not
  12 times the number of cells. The code compares the number of whole 4-byte words
  instead (\<open>initialize_accepts_iff\<close>), so for a table of 3 cells this payload of 37
  bytes, the 36 bytes of \<open>plus_five\<close> and one more, is accepted and decoded.
\<close>

theorem initialize_accepts_37_bytes:
  "length (table_bytes plus_five @ [255]) = 37 \<and> 12 * length (new_table 1) = 36 \<and>
   initialize Some (new_table 1) (table_bytes plus_five @ [255]) = Inr plus_five"
proof -
  have l: "length (new_table 1) = length plus_five" by (simp add: new_table_1 plus_five_def)
  have c: "Some (table_bytes plus_five @ [255]) = Some (table_bytes plus_five @ [255])" by simp
  have x: "length [255 :: u8] < 4" by simp
  have "initialize Some (new_table 1) (table_bytes plus_five @ [255]) =
          Inr (map (\<lambda>i. if count (plus_five ! i) \<noteq> 0 then plus_five ! i else new_table 1 ! i)
                 [0 ..< length plus_five])"
    using initialize_payload[of Some "table_bytes plus_five @ [255]" plus_five "[255]" "new_table 1",
        OF c x l] .
  also have "\<dots> = Inr plus_five"
    by (simp add: plus_five_def replicate3 upt_rec)
  finally have r: "initialize Some (new_table 1) (table_bytes plus_five @ [255]) = Inr plus_five" .
  have "length (table_bytes plus_five @ [255]) = 37" by (simp add: plus_five_def)
  moreover have "12 * length (new_table 1) = 36" by (simp add: new_table_1)
  ultimately show ?thesis using r by (intro conjI)
qed

section \<open>Properties of the engine\<close>

lemma hashPub_p: "hashPub pub_p = 2272863673"
  by (simp add: hashPub_def pub_p_def N_HASHCHECK_def murmurHash3_def fmix_def mix_block_def
      mix_k1_def ROTL32_def block32_def c1_def c2_def Let_def)

lemma hashPub_q: "hashPub pub_q = 2272863673"
  by (simp add: hashPub_def pub_q_def N_HASHCHECK_def murmurHash3_def fmix_def mix_block_def
      mix_k1_def ROTL32_def block32_def c1_def c2_def Let_def)

text \<open>
  C7. With the clients' filter, \<open>handleInterest\<close> on a sync request whose decoded
  IBLT equals the engine's own returns false and sends no Data: the difference is
  the empty table, \<open>have\<close> is empty, and the filter gets and returns an empty list.
\<close>

theorem handleInterest_equal_iblt:
  assumes "name \<noteq> []"
    and "initialize inflate (new_table (ucast (m_expectedNumEntries st))) (last name)
           = Inr (m_iblt st)"
    and "m_filterPubs st = filterPubs toTimestamp"
  shows "handleInterest inflate blockSize st name = Some (Inr (False, []))"
proof -
  have d: "minus_iblt (m_iblt st) (m_iblt st) = Inr (replicate (length (m_iblt st)) zeroEntry)"
    by (rule minus_iblt_self)
  have l: "listEntries (replicate (length (m_iblt st)) zeroEntry) {} {} =
     Some (Inr (True, \<lparr>self = replicate (length (m_iblt st)) zeroEntry,
                      peeled = replicate (length (m_iblt st)) zeroEntry,
                      positive = {}, negative = {}, peeledSomething = False\<rparr>))"
    by (rule listEntries_zero_table)
  show ?thesis
    using assms by (simp add: handleInterest_def d l filterPubs_def)
qed

lemma addToActive_Inr:
  assumes "addToActive pub l st = Inr (h, st')"
  shows "h = length (objects st)" and "objects st' = objects st @ [pub]"
    and "m_active st' = (m_active st)(h \<mapsto> (if l then 3 else 1))"
    and "m_hash2pub st' = (m_hash2pub st)(hashPub pub \<mapsto> h)"
  using assms
  by (auto simp: addToActive_def Let_def schedule_def split: sum.splits)

text \<open>
  C10. When two publications with the same digest have both been added to the active
  store (in either order), \<open>removeFromActive\<close> of the one erases the digest from
  \<open>m_hash2pub\<close>: \<open>isKnown\<close> of the other is false although its handle is still in
  \<open>m_active\<close>.
\<close>

theorem removeFromActive_shared_digest:
  assumes "hashPub p = hashPub q"
    and "addToActive p lp st = Inr (hp, st1) \<and> addToActive q lq st1 = Inr (hq, st2) \<or>
         addToActive q lq st = Inr (hq, st1) \<and> addToActive p lp st1 = Inr (hp, st2)"
  shows "\<not> isKnown (removeFromActive hp st2) q \<and>
         m_active (removeFromActive hp st2) hq = Some (if lq then 3 else 1)"
  using assms(2)
proof
  assume a: "addToActive p lp st = Inr (hp, st1) \<and> addToActive q lq st1 = Inr (hq, st2)"
  note p = addToActive_Inr[OF a[THEN conjunct1]] and q = addToActive_Inr[OF a[THEN conjunct2]]
  have o: "objects st2 ! hp = p" using p q by (simp add: nth_append)
  have n: "hp \<noteq> hq" using p q by simp
  have r: "removeFromActive hp st2 =
      st2\<lparr>m_active := (m_active st2)(hp := None),
          m_hash2pub := (m_hash2pub st2)(hashPub q := None)\<rparr>"
    unfolding removeFromActive_def o assms(1) ..
  show ?thesis unfolding r using n q(1,3) by (simp add: isKnown_def isKnown_hash_def)
next
  assume a: "addToActive q lq st = Inr (hq, st1) \<and> addToActive p lp st1 = Inr (hp, st2)"
  note q = addToActive_Inr[OF a[THEN conjunct1]] and p = addToActive_Inr[OF a[THEN conjunct2]]
  have o: "objects st2 ! hp = p" using p q by (simp add: nth_append)
  have n: "hp \<noteq> hq" using p q by simp
  have r: "removeFromActive hp st2 =
      st2\<lparr>m_active := (m_active st2)(hp := None),
          m_hash2pub := (m_hash2pub st2)(hashPub q := None)\<rparr>"
    unfolding removeFromActive_def o assms(1) ..
  show ?thesis unfolding r using n p(1,3) q(1,3) by (simp add: isKnown_def isKnown_hash_def)
qed

lemma addToActive_succeeds:
  assumes "length (m_iblt st) div N_HASH \<noteq> 0"
  shows "\<exists>st'. addToActive pub l st = Inr (length (objects st), st') \<and>
               length (m_iblt st') = length (m_iblt st)"
  using assms by (simp add: addToActive_def Let_def insert_key_def update_def schedule_def)

lemma example_cells: "length (m_iblt example_engine) div N_HASH \<noteq> 0"
  by (simp add: example_engine_def new_table_1 N_HASH_def)

theorem removeFromActive_shared_digest_witness:
  "hashPub pub_p = hashPub pub_q \<and> pub_p \<noteq> pub_q \<and>
   (\<exists>st1 st2. addToActive pub_p True example_engine = Inr (0, st1) \<and>
              addToActive pub_q False st1 = Inr (1, st2) \<and>
              \<not> isKnown (removeFromActive 0 st2) pub_q \<and>
              m_active (removeFromActive 0 st2) 1 = Some 1)"
proof -
  have h: "hashPub pub_p = hashPub pub_q" by (simp add: hashPub_p hashPub_q)
  have n: "pub_p \<noteq> pub_q" by (simp add: pub_p_def pub_q_def)
  obtain st1 where 1: "addToActive pub_p True example_engine = Inr (0, st1)"
    and l1: "length (m_iblt st1) = length (m_iblt example_engine)"
    using addToActive_succeeds[OF example_cells, of pub_p True] by (auto simp: example_engine_def)
  have o1: "length (objects st1) = 1"
    using addToActive_Inr(2)[OF 1] by (simp add: example_engine_def)
  have "length (m_iblt st1) div N_HASH \<noteq> 0" using l1 example_cells by simp
  then obtain st2 where 2: "addToActive pub_q False st1 = Inr (1, st2)"
    using addToActive_succeeds[of st1 pub_q False] o1 by auto
  from removeFromActive_shared_digest [OF h, of True example_engine 0 st1 False 1 st2] 1 2
  have "\<not> isKnown (removeFromActive 0 st2) pub_q \<and>
        m_active (removeFromActive 0 st2) 1 = Some 1" by simp
  then show ?thesis using h n 1 2 by blast
qed

theorem handleInterest_equal_iblt_witness:
  "[[100], table_bytes plus_five] \<noteq> [] \<and>
   initialize Some (new_table (ucast (m_expectedNumEntries engine_five)))
     (last [[100], table_bytes plus_five]) = Inr (m_iblt engine_five) \<and>
   m_filterPubs engine_five = filterPubs (\<lambda>c. 0) \<and>
   handleInterest Some length engine_five [[100], table_bytes plus_five] = Some (Inr (False, []))"
proof -
  have l: "length (new_table 1) = length plus_five" by (simp add: new_table_1 plus_five_def)
  have c: "Some (table_bytes plus_five) = Some (table_bytes plus_five @ [])" by simp
  have x: "length ([] :: u8 list) < 4" by simp
  have "initialize Some (new_table 1) (table_bytes plus_five) =
          Inr (map (\<lambda>i. if count (plus_five ! i) \<noteq> 0 then plus_five ! i else new_table 1 ! i)
                 [0 ..< length plus_five])"
    using initialize_payload[of Some "table_bytes plus_five" plus_five "[]" "new_table 1", OF c x l] .
  also have "\<dots> = Inr plus_five"
    by (simp add: plus_five_def replicate3 upt_rec)
  finally have i: "initialize Some (new_table (ucast (m_expectedNumEntries engine_five)))
     (last [[100], table_bytes plus_five]) = Inr (m_iblt engine_five)"
    by (simp add: engine_five_def example_engine_def)
  have f: "m_filterPubs engine_five = filterPubs (\<lambda>c. 0)"
    by (simp add: engine_five_def example_engine_def)
  have n: "[[100], table_bytes plus_five] \<noteq> []" by simp
  from handleInterest_equal_iblt [OF n i f, of length]
  show ?thesis using n i f by (intro conjI)
qed

lemma subscriptions: "m_subscription subscribed_engine = [(topic_a, 10), (topic_ab, 20)]"
  by (simp add: subscribed_engine_def subscribeTo_def example_engine_def topic_a_def topic_ab_def
      component_less_def)

lemma find_acx: "find_subscription [(topic_a, 10 :: nat), (topic_ab, 20)] (pubName pub_acx) = None"
  by (simp add: find_subscription_def lower_bound_def topic_a_def topic_ab_def pub_acx_def
      component_less_def)

lemma longest_acx:
  "longest_prefix_match [(topic_a, 10 :: nat), (topic_ab, 20)] (pubName pub_acx) = Some (topic_a, 10)"
  by (simp add: longest_prefix_match_def topic_a_def topic_ab_def pub_acx_def)

text \<open>
  C4. \<open>onValidData\<close> is to call the callback of the longest subscribed prefix. With
  the topics \<open>/a\<close> and \<open>/a/b\<close> subscribed and the publication \<open>/a/c/<t>\<close> admitted,
  \<open>lower_bound\<close> is \<open>end()\<close>, the entry before it is \<open>/a/b\<close>, which is no prefix, and
  no callback is called, although \<open>/a\<close> is a prefix of the name.
\<close>

theorem onValidData_misses_longest_prefix:
  "m_subscription subscribed_engine = [(topic_a, 10), (topic_ab, 20)] \<and>
   longest_prefix_match (m_subscription subscribed_engine) (pubName pub_acx) = Some (topic_a, 10) \<and>
   find_subscription (m_subscription subscribed_engine) (pubName pub_acx) = None \<and>
   (case onValidData (syncpsContent, [(tlv_Data, pub_acx)]) subscribed_engine of
      Inl e \<Rightarrow> False
    | Inr st \<Rightarrow> isKnown st pub_acx \<and> delivered st = [])"
proof -
  have e: "\<not> m_isExpired subscribed_engine 0 pub_acx"
    by (simp add: subscribed_engine_def subscribeTo_def example_engine_def isExpired_def
        maxPubLifetime_def maxClockSkew_def)
  have k: "\<not> isKnown (subscribed_engine\<lparr>m_delivering := True\<rparr>) pub_acx"
    by (simp add: isKnown_def isKnown_hash_def subscribed_engine_def subscribeTo_def
        example_engine_def)
  have c: "clock subscribed_engine = 0"
    by (simp add: subscribed_engine_def subscribeTo_def example_engine_def)
  have "length (m_iblt (subscribed_engine\<lparr>m_delivering := True\<rparr>)) div N_HASH \<noteq> 0"
    by (simp add: subscribed_engine_def subscribeTo_def example_engine_def new_table_1 N_HASH_def)
  then obtain st' where "addToActive pub_acx False (subscribed_engine\<lparr>m_delivering := True\<rparr>)
       = Inr (length (objects (subscribed_engine\<lparr>m_delivering := True\<rparr>)), st')"
    using addToActive_succeeds by blast
  then have a: "addToActive pub_acx False (subscribed_engine\<lparr>m_delivering := True\<rparr>)
       = Inr (0, st')"
    by (simp add: subscribed_engine_def subscribeTo_def example_engine_def)
  note r = addToActive_Inr[OF a]
  have s: "m_subscription st' = [(topic_a, 10), (topic_ab, 20)]"
    using a subscriptions by (auto simp: addToActive_def Let_def schedule_def split: sum.splits)
  have d: "delivered st' = []"
    using a by (auto simp: addToActive_def Let_def schedule_def subscribed_engine_def
        subscribeTo_def example_engine_def split: sum.splits)
  have o: "pubName (objects st' ! 0) = pubName pub_acx"
    using r(2) by (simp add: subscribed_engine_def subscribeTo_def example_engine_def)
  have "onValidData (syncpsContent, [(tlv_Data, pub_acx)]) subscribed_engine
          = Inr (st'\<lparr>m_delivering := False\<rparr>)"
    using e k c a by (simp add: onValidData_def onValidData_element_def Let_def s o find_acx)
  moreover have "isKnown (st'\<lparr>m_delivering := False\<rparr>) pub_acx"
    using r(4) by (simp add: isKnown_def isKnown_hash_def)
  ultimately show ?thesis
    using d by (simp add: subscriptions find_acx longest_acx)
qed

section \<open>The lifetime of a publication\<close>

lemma count_fold_update_entry:
  "count (fold (update_entry 1) ks e) = count e + of_nat (length ks)"
  by (induction ks arbitrary: e) (simp_all add: update_entry_def add.assoc)

lemma word_of_nat_small:
  assumes "n < 2 ^ 32 - 1"
  shows "((of_nat n :: i32) = 0) = (n = 0)" and "((of_nat n :: i32) = 1) = (n = 1)"
    and "(of_nat n :: i32) \<noteq> - 1"
proof -
  have "n < 2 ^ 32" using assms by simp
  then have u: "unat (of_nat n :: i32) = n" by (simp add: unat_of_nat)
  show "((of_nat n :: i32) = 0) = (n = 0)"
  proof
    assume "(of_nat n :: i32) = 0"
    then have "unat (of_nat n :: i32) = unat (0 :: i32)" by (rule arg_cong)
    then show "n = 0" unfolding u by simp
  next
    assume "n = 0" then show "(of_nat n :: i32) = 0" by simp
  qed
  show "((of_nat n :: i32) = 1) = (n = 1)"
  proof
    assume "(of_nat n :: i32) = 1"
    then have "unat (of_nat n :: i32) = unat (1 :: i32)" by (rule arg_cong)
    then show "n = 1" unfolding u by simp
  next
    assume "n = 1" then show "(of_nat n :: i32) = 1" by simp
  qed
  show "(of_nat n :: i32) \<noteq> - 1"
  proof
    assume "(of_nat n :: i32) = - 1"
    then have "unat (of_nat n :: i32) = unat (- 1 :: i32)" by (rule arg_cong)
    moreover have "unat (- 1 :: i32) = 2 ^ 32 - 1"
      by (simp add: unsigned_minus_1_eq_mask mask_eq_exp_minus_1)
    ultimately have "n = 2 ^ 32 - 1" unfolding u by simp
    then show False using assms by simp
  qed
qed

lemma chkPeer_built:
  assumes n: "n div N_HASH \<noteq> 0" and d: "distinct ks" and k: "k \<in> set ks"
    and b: "length ks < 2 ^ 32 - 1" and j: "j < n" and t: "touched (replicate n zeroEntry) k j"
  shows "\<not> chkPeer (fold (update_cells 1) ks (replicate n zeroEntry)) k j"
proof -
  let ?z = "replicate n zeroEntry"
  let ?f = "filter (\<lambda>k'. touched ?z k' j) ks"
  let ?e = "fold (update_entry 1) ?f zeroEntry"
  have e: "fold (update_cells 1) ks ?z ! j = ?e"
    using n j by (simp add: nth_fold_update_cells)
  have kf: "k \<in> set ?f" using k t by simp
  then have pos: "length ?f \<noteq> 0" by (metis length_0_conv empty_iff list.set(1))
  have lt: "length ?f < 2 ^ 32 - 1" by (rule le_less_trans[OF length_filter_le b])
  have c: "count ?e = of_nat (length ?f)"
    by (simp add: count_fold_update_entry zeroEntry_def)
  have ne: "\<not> isEmpty ?e"
    using word_of_nat_small(1)[OF lt] pos by (simp add: isEmpty_def c)
  have "keySum ?e = k" if "isPure ?e"
  proof -
    from that have "count ?e = 1 \<or> count ?e = - 1" by (auto simp: isPure_def split: if_splits)
    then have "length ?f = 1"
      using word_of_nat_small(2,3)[OF lt] by (simp add: c)
    then obtain x where x: "?f = [x]" by (cases ?f) auto
    then have "x = k" using kf by simp
    then show ?thesis using x by (simp add: update_entry_zero single_def)
  qed
  then show ?thesis using ne by (auto simp: chkPeer_def Let_def e)
qed

lemma badPeers_built:
  assumes n: "n div N_HASH \<noteq> 0" and d: "distinct ks" and k: "k \<in> set ks"
    and b: "length ks < 2 ^ 32 - 1"
  shows "badPeers (fold (update_cells 1) ks (replicate n zeroEntry)) k = Inr False"
proof -
  let ?z = "replicate n zeroEntry"
  have "\<not> chkPeer (fold (update_cells 1) ks ?z) k (cell_index (n div N_HASH) i k)" if "i < 3" for i
  proof -
    have "cell_index (n div N_HASH) i k < n"
      using cell_index_less[of ?z i k] n that by simp
    moreover have "touched ?z k (cell_index (n div N_HASH) i k)"
      using touched_cell_index[OF that, of ?z k] by simp
    ultimately show ?thesis using chkPeer_built[OF n d k b] by blast
  qed
  then have "\<not> badPeers_cells (fold (update_cells 1) ks ?z) k"
    by (simp add: badPeers_cells_def)
  then show ?thesis using n by (simp add: badPeers_def)
qed

lemma erase_built:
  assumes n: "n div N_HASH \<noteq> 0" and d: "distinct (k # ks)" and b: "length (k # ks) < 2 ^ 32 - 1"
  shows "erase k (fold (update_cells 1) (k # ks) (replicate n zeroEntry))
           = Inr (fold (update_cells 1) ks (replicate n zeroEntry))"
proof -
  let ?z = "replicate n zeroEntry"
  have bad: "badPeers (fold (update_cells 1) (k # ks) ?z) k = Inr False"
    using n d _ b by (rule badPeers_built) simp
  have "mset (k # ks) = mset (ks @ [k])" by simp
  then have "fold (update_cells 1) (k # ks) ?z = fold (update_cells 1) (ks @ [k]) ?z"
    by (rule fold_update_cells_mset[OF n])
  also have "\<dots> = update_cells 1 k (fold (update_cells 1) ks ?z)" by simp
  finally have eq: "fold (update_cells 1) (k # ks) ?z = update_cells 1 k (fold (update_cells 1) ks ?z)" .
  have "update (- 1) k (fold (update_cells 1) (k # ks) ?z) = Inr (fold (update_cells 1) ks ?z)"
    unfolding eq using n by (simp add: update_def update_cells_inverse)
  then show ?thesis using bad by (simp add: erase_def ERASE_def)
qed

lemma set_enqueue [simp]: "set (enqueue ev q) = insert ev (set q)"
  by (induction q) auto

lemma length_enqueue [simp]: "length (enqueue ev q) = Suc (length q)"
  by (induction q) auto

lemma sorted_enqueue: "sorted (map fst q) \<Longrightarrow> sorted (map fst (enqueue ev q))"
  by (induction q) auto

lemma enqueue_last: "\<forall>x \<in> set q. fst x \<le> fst ev \<Longrightarrow> enqueue ev q = q @ [ev]"
  by (induction q) auto

lemma erase_keys_append: "erase_keys (a @ b) = erase_keys a @ erase_keys b"
  by (induction a rule: erase_keys.induct) simp_all

lemma remove_ptrs_append: "remove_ptrs (a @ b) = remove_ptrs a @ remove_ptrs b"
  by (induction a rule: remove_ptrs.induct) simp_all

lemma clear_ptrs_append: "clear_ptrs (a @ b) = clear_ptrs a @ clear_ptrs b"
  by (induction a rule: clear_ptrs.induct) simp_all

lemma erase_keys_enqueue_ClearLive [simp]:
  "erase_keys (enqueue (d, ClearLive p) q) = erase_keys q"
  by (induction q rule: erase_keys.induct) simp_all

lemma remove_ptrs_enqueue_ClearLive [simp]:
  "remove_ptrs (enqueue (d, ClearLive p) q) = remove_ptrs q"
  by (induction q rule: remove_ptrs.induct) simp_all

lemma set_clear_ptrs_enqueue [simp]:
  "set (clear_ptrs (enqueue (d, ClearLive p) q)) = insert p (set (clear_ptrs q))"
  by (induction q rule: clear_ptrs.induct) auto

lemma distinct_clear_ptrs_enqueue:
  "distinct (clear_ptrs (enqueue (d, ClearLive p) q)) =
     (p \<notin> set (clear_ptrs q) \<and> distinct (clear_ptrs q))"
  by (induction q rule: clear_ptrs.induct) auto

lemma erase_keys_mem: "h \<in> set (erase_keys q) = (\<exists>d. (d, EraseHash h) \<in> set q)"
  by (induction q rule: erase_keys.induct) auto

lemma remove_ptrs_mem: "p \<in> set (remove_ptrs q) = (\<exists>d. (d, RemoveFromActive p) \<in> set q)"
  by (induction q rule: remove_ptrs.induct) auto

lemma clear_ptrs_mem: "p \<in> set (clear_ptrs q) = (\<exists>d. (d, ClearLive p) \<in> set q)"
  by (induction q rule: clear_ptrs.induct) auto

lemma ebr_enqueue_ClearLive [simp]:
  "erase_before_remove objs (enqueue (d, ClearLive p) q) = erase_before_remove objs q"
  by (induction objs q rule: erase_before_remove.induct) simp_all

lemma ebr_append_EraseHash:
  "erase_before_remove objs (a @ [(d, EraseHash h)]) =
     (erase_before_remove objs a \<and> (\<forall>p \<in> set (remove_ptrs a). hashPub (objs ! p) \<noteq> h))"
  by (induction objs a rule: erase_before_remove.induct) (auto simp: erase_keys_append)

lemma ebr_append_Remove:
  "erase_before_remove objs (a @ [(d, RemoveFromActive p)]) = erase_before_remove objs a"
  by (induction objs a rule: erase_before_remove.induct) (auto simp: erase_keys_append)

lemma ebr_objects_append:
  "\<forall>p \<in> set (remove_ptrs q). p < length objs \<Longrightarrow>
   erase_before_remove (objs @ [x]) q = erase_before_remove objs q"
  by (induction objs q rule: erase_before_remove.induct) (auto simp: nth_append)

lemma timer_ptr_ok_mono: "timer_ptr_ok n cb \<Longrightarrow> timer_ptr_ok (Suc n) cb"
  by (cases cb) auto

lemma ptrs_ok:
  assumes "list_all (\<lambda>ev. timer_ptr_ok n (snd ev)) q"
  shows "\<forall>p \<in> set (remove_ptrs q). p < n" and "\<forall>p \<in> set (clear_ptrs q). p < n"
  using assms by (force simp: list_all_iff remove_ptrs_mem clear_ptrs_mem)+

lemma addToActive_effect:
  assumes "addToActive pub l st = Inr (p, st')"
  shows "length (m_iblt st) div N_HASH \<noteq> 0"
    and "p = length (objects st)"
    and "st' = st\<lparr>objects := objects st @ [pub],
                 m_active := (m_active st)(length (objects st) \<mapsto> (if l then 3 else 1)),
                 m_hash2pub := (m_hash2pub st)(hashPub pub \<mapsto> length (objects st)),
                 m_iblt := update_cells 1 (hashPub pub) (m_iblt st),
                 m_scheduler :=
                   enqueue (clock st + maxPubLifetime * 2, RemoveFromActive (length (objects st)))
                    (enqueue (clock st + (maxPubLifetime + maxClockSkew), EraseHash (hashPub pub))
                      (enqueue (clock st + maxPubLifetime, ClearLive (length (objects st)))
                        (m_scheduler st)))\<rparr>"
  using assms
  by (auto simp: addToActive_def Let_def schedule_def insert_key_def update_def INSERT_def
      split: if_splits)

lemma store_invD:
  assumes "store_inv st"
  shows "m_scheduler st \<noteq> [] \<longrightarrow> length (m_iblt st) div N_HASH \<noteq> 0"
    and "m_iblt st = fold (update_cells 1) (erase_keys (m_scheduler st))
                       (replicate (length (m_iblt st)) zeroEntry)"
    and "distinct (erase_keys (m_scheduler st))"
    and "sorted (map fst (m_scheduler st))"
    and "list_all (\<lambda>ev. clock st \<le> fst ev \<and> fst ev \<le> clock st + 2 * maxPubLifetime \<and>
                      timer_ptr_ok (length (objects st)) (snd ev)) (m_scheduler st)"
    and "set (erase_keys (m_scheduler st)) \<subseteq> dom (m_hash2pub st)"
    and "list_all (\<lambda>p. m_hash2pub st (hashPub (objects st ! p)) = Some p)
           (remove_ptrs (m_scheduler st))"
    and "distinct (remove_ptrs (m_scheduler st))"
    and "distinct (clear_ptrs (m_scheduler st))"
    and "erase_before_remove (objects st) (m_scheduler st)"
  using assms unfolding store_inv_def Let_def by blast+

lemma store_invI:
  assumes "m_scheduler st \<noteq> [] \<longrightarrow> length (m_iblt st) div N_HASH \<noteq> 0"
    and "m_iblt st = fold (update_cells 1) (erase_keys (m_scheduler st))
                       (replicate (length (m_iblt st)) zeroEntry)"
    and "distinct (erase_keys (m_scheduler st))"
    and "sorted (map fst (m_scheduler st))"
    and "list_all (\<lambda>ev. clock st \<le> fst ev \<and> fst ev \<le> clock st + 2 * maxPubLifetime \<and>
                      timer_ptr_ok (length (objects st)) (snd ev)) (m_scheduler st)"
    and "set (erase_keys (m_scheduler st)) \<subseteq> dom (m_hash2pub st)"
    and "list_all (\<lambda>p. m_hash2pub st (hashPub (objects st ! p)) = Some p)
           (remove_ptrs (m_scheduler st))"
    and "distinct (remove_ptrs (m_scheduler st))"
    and "distinct (clear_ptrs (m_scheduler st))"
    and "erase_before_remove (objects st) (m_scheduler st)"
  shows "store_inv st"
  using assms unfolding store_inv_def Let_def by blast

lemma addToActive_scheduler:
  assumes store_inv: "store_inv st" and a: "addToActive pub l st = Inr (p, st')"
  shows "m_scheduler st' =
           enqueue (clock st + maxPubLifetime, ClearLive (length (objects st))) (m_scheduler st) @
           [(clock st + 2 * maxPubLifetime, EraseHash (hashPub pub)),
            (clock st + 2 * maxPubLifetime, RemoveFromActive (length (objects st)))]"
proof -
  let ?q1 = "enqueue (clock st + maxPubLifetime, ClearLive (length (objects st))) (m_scheduler st)"
  have b: "\<forall>x \<in> set (m_scheduler st). fst x \<le> clock st + 2 * maxPubLifetime"
    using store_invD(5)[OF store_inv] by (simp add: list_all_iff)
  have 1: "enqueue (clock st + (maxPubLifetime + maxClockSkew), EraseHash (hashPub pub)) ?q1
             = ?q1 @ [(clock st + 2 * maxPubLifetime, EraseHash (hashPub pub))]"
    using b by (subst enqueue_last) (auto simp: maxPubLifetime_def maxClockSkew_def)
  have 2: "enqueue (clock st + maxPubLifetime * 2, RemoveFromActive (length (objects st)))
             (?q1 @ [(clock st + 2 * maxPubLifetime, EraseHash (hashPub pub))])
           = (?q1 @ [(clock st + 2 * maxPubLifetime, EraseHash (hashPub pub))]) @
             [(clock st + 2 * maxPubLifetime, RemoveFromActive (length (objects st)))]"
    using b by (subst enqueue_last) (auto simp: maxPubLifetime_def)
  show ?thesis
    by (subst addToActive_effect(3)[OF a]) (simp add: 1 2)
qed

lemma addToActive_fields:
  assumes a: "addToActive pub l st = Inr (p, st')"
  shows "objects st' = objects st @ [pub]"
    and "m_active st' = (m_active st)(length (objects st) \<mapsto> (if l then 3 else 1))"
    and "m_hash2pub st' = (m_hash2pub st)(hashPub pub \<mapsto> length (objects st))"
    and "m_iblt st' = update_cells 1 (hashPub pub) (m_iblt st)"
    and "clock st' = clock st"
    and "m_isExpired st' = m_isExpired st"
    and "m_subscription st' = m_subscription st"
  by (simp_all add: addToActive_effect(3)[OF a])

lemma store_inv_addToActive:
  assumes store_inv: "store_inv st" and nk: "m_hash2pub st (hashPub pub) = None"
    and a: "addToActive pub l st = Inr (p, st')"
  shows "store_inv st'"
proof (rule store_invI)
  let ?q = "m_scheduler st"
  let ?n = "length (objects st)"
  let ?h = "hashPub pub"
  let ?q1 = "enqueue (clock st + maxPubLifetime, ClearLive ?n) ?q"
  note f = addToActive_fields[OF a]
  note s = addToActive_scheduler[OF store_inv a]
  note w = store_invD[OF store_inv]
  have ek: "erase_keys (m_scheduler st') = erase_keys ?q @ [?h]"
    by (simp add: s erase_keys_append)
  have rp: "remove_ptrs (m_scheduler st') = remove_ptrs ?q @ [?n]"
    by (simp add: s remove_ptrs_append)
  have cp: "clear_ptrs (m_scheduler st') = clear_ptrs ?q1"
    by (simp add: s clear_ptrs_append)
  have ok: "list_all (\<lambda>ev. timer_ptr_ok ?n (snd ev)) ?q"
    using w(5) by (simp add: list_all_iff)
  note fresh = ptrs_ok[OF ok]
  have hk: "?h \<notin> set (erase_keys ?q)" using w(6) nk by auto
  show "m_scheduler st' \<noteq> [] \<longrightarrow> length (m_iblt st') div N_HASH \<noteq> 0"
    using addToActive_effect(1)[OF a] by (simp add: f)
  show "m_iblt st' = fold (update_cells 1) (erase_keys (m_scheduler st'))
                       (replicate (length (m_iblt st')) zeroEntry)"
    using w(2) by (simp add: f ek)
  show "distinct (erase_keys (m_scheduler st'))" using w(3) hk by (simp add: ek)
  show "sorted (map fst (m_scheduler st'))"
    unfolding addToActive_effect(3)[OF a] using w(4) by (simp add: sorted_enqueue)
  show "list_all (\<lambda>ev. clock st' \<le> fst ev \<and> fst ev \<le> clock st' + 2 * maxPubLifetime \<and>
                      timer_ptr_ok (length (objects st')) (snd ev)) (m_scheduler st')"
    using w(5) by (auto simp: s f list_all_iff timer_ptr_ok_mono)
  show "set (erase_keys (m_scheduler st')) \<subseteq> dom (m_hash2pub st')"
    using w(6) by (auto simp: ek f)
  show "list_all (\<lambda>p. m_hash2pub st' (hashPub (objects st' ! p)) = Some p)
           (remove_ptrs (m_scheduler st'))"
  proof -
    have "m_hash2pub st' (hashPub (objects st' ! p')) = Some p'"
      if "p' \<in> set (remove_ptrs ?q)" for p'
    proof -
      have lt: "p' < ?n" using fresh(1) that by blast
      have old: "m_hash2pub st (hashPub (objects st ! p')) = Some p'"
        using w(7) that by (simp add: list_all_iff)
      then have "hashPub (objects st ! p') \<noteq> ?h" using nk by auto
      then show ?thesis using old lt by (simp add: f nth_append)
    qed
    then show ?thesis by (simp add: rp list_all_iff f)
  qed
  show "distinct (remove_ptrs (m_scheduler st'))"
    using w(8) fresh(1) by (auto simp: rp)
  show "distinct (clear_ptrs (m_scheduler st'))"
    using w(9) fresh(2) by (auto simp: cp distinct_clear_ptrs_enqueue)
  show "erase_before_remove (objects st') (m_scheduler st')"
  proof -
    let ?E = "(clock st + 2 * maxPubLifetime, EraseHash ?h)"
    let ?R = "(clock st + 2 * maxPubLifetime, RemoveFromActive ?n)"
    have q': "m_scheduler st' = (?q1 @ [?E]) @ [?R]" by (simp add: s)
    have lt: "\<forall>p' \<in> set (remove_ptrs ?q1). p' < ?n" using fresh(1) by simp
    have ne: "\<forall>p' \<in> set (remove_ptrs ?q1). hashPub ((objects st @ [pub]) ! p') \<noteq> ?h"
    proof
      fix p' assume m: "p' \<in> set (remove_ptrs ?q1)"
      then have "m_hash2pub st (hashPub (objects st ! p')) = Some p'"
        using w(7) by (simp add: list_all_iff)
      then have "hashPub (objects st ! p') \<noteq> ?h" using nk by auto
      then show "hashPub ((objects st @ [pub]) ! p') \<noteq> ?h"
        using lt m by (simp add: nth_append)
    qed
    have "erase_before_remove (objects st @ [pub]) ?q1 = erase_before_remove (objects st) ?q1"
      using lt by (rule ebr_objects_append)
    then have "erase_before_remove (objects st @ [pub]) ?q1" using w(10) by simp
    then have "erase_before_remove (objects st @ [pub]) (?q1 @ [?E])"
      using ne by (simp only: ebr_append_EraseHash)
    then have "erase_before_remove (objects st @ [pub]) ((?q1 @ [?E]) @ [?R])"
      by (simp only: ebr_append_Remove)
    then show ?thesis by (simp only: q' f)
  qed
qed

lemma fire_cases:
  assumes "fire cb s = Inr st'"
  obtains (clear) p where "cb = ClearLive p"
      "st' = s\<lparr>m_active := (m_active s)
                 (p \<mapsto> (case m_active s p of None \<Rightarrow> 0 | Some v \<Rightarrow> v) AND NOT 1)\<rparr>"
    | (erase) h t where "cb = EraseHash h" "erase h (m_iblt s) = Inr t"
      "st' = s\<lparr>m_iblt := t, m_scheduledSyncInterestId := Some (clock s + 3)\<rparr>"
    | (remove) p where "cb = RemoveFromActive p"
      "st' = s\<lparr>m_active := (m_active s)(p := None),
                 m_hash2pub := (m_hash2pub s)(hashPub (objects s ! p) := None)\<rparr>"
  using assms
  by (cases cb)
     (auto simp: fire_def sendSyncInterestSoon_def removeFromActive_def split: sum.splits)

lemma length_erase_keys: "length (erase_keys q) \<le> length q"
  by (induction q rule: erase_keys.induct) auto

lemma store_inv_fire_head:
  assumes store_inv: "store_inv st" and q: "m_scheduler st = (d, cb) # q"
    and b: "length (m_scheduler st) < 2 ^ 32 - 1"
    and f: "fire cb (st\<lparr>m_scheduler := q, clock := max (clock st) d\<rparr>) = Inr st'"
  shows "store_inv st'" and "m_scheduler st' = q" and "objects st' = objects st"
    and "clock st' = d" and "length (m_iblt st') = length (m_iblt st)"
proof -
  note w = store_invD[OF store_inv, unfolded q]
  have n0: "length (m_iblt st) div N_HASH \<noteq> 0" using w(1) by simp
  have c: "max (clock st) d = d" using w(5) by simp
  have srt: "sorted (map fst q)" and ge: "\<forall>x \<in> set q. d \<le> fst x"
    using w(4) by auto
  have bounds: "list_all (\<lambda>x. d \<le> fst x \<and> fst x \<le> d + 2 * maxPubLifetime \<and>
                      timer_ptr_ok (length (objects st)) (snd x)) q"
    using w(5) ge by (auto simp: list_all_iff)
  have kl: "length (erase_keys ((d, cb) # q)) \<le> length ((d, cb) # q)"
    by (rule length_erase_keys)
  from f show "m_scheduler st' = q" by (cases rule: fire_cases) simp_all
  from f show "objects st' = objects st" by (cases rule: fire_cases) simp_all
  from f show "clock st' = d" using c by (cases rule: fire_cases) simp_all
  from f have store_inv': "store_inv st' \<and> length (m_iblt st') = length (m_iblt st)"
  proof (cases rule: fire_cases)
    case (clear p)
    note w' = w[unfolded clear(1), simplified]
    have "store_inv st'"
    proof (rule store_invI)
      show "m_scheduler st' \<noteq> [] \<longrightarrow> length (m_iblt st') div N_HASH \<noteq> 0" using n0 by (simp add: clear(2))
      show "m_iblt st' = fold (update_cells 1) (erase_keys (m_scheduler st'))
                       (replicate (length (m_iblt st')) zeroEntry)"
        using w'(2) by (simp add: clear(2))
      show "distinct (erase_keys (m_scheduler st'))" using w'(3) by (simp add: clear(2))
      show "sorted (map fst (m_scheduler st'))" using srt by (simp add: clear(2))
      show "list_all (\<lambda>ev. clock st' \<le> fst ev \<and> fst ev \<le> clock st' + 2 * maxPubLifetime \<and>
                      timer_ptr_ok (length (objects st')) (snd ev)) (m_scheduler st')"
        using bounds by (simp add: clear(2) c)
      show "set (erase_keys (m_scheduler st')) \<subseteq> dom (m_hash2pub st')"
        using w'(6) by (simp add: clear(2))
      show "list_all (\<lambda>p. m_hash2pub st' (hashPub (objects st' ! p)) = Some p)
           (remove_ptrs (m_scheduler st'))"
        using w'(7) by (simp add: clear(2))
      show "distinct (remove_ptrs (m_scheduler st'))" using w'(8) by (simp add: clear(2))
      show "distinct (clear_ptrs (m_scheduler st'))" using w'(9) by (simp add: clear(2))
      show "erase_before_remove (objects st') (m_scheduler st')"
        using w'(10) by (simp add: clear(2))
    qed
    then show ?thesis by (simp add: clear(2))
  next
    case (erase h t)
    note w' = w[unfolded erase(1), simplified]
    have lb: "length (h # erase_keys q) < 2 ^ 32 - 1" using kl b unfolding q erase(1) by simp
    have dk: "distinct (h # erase_keys q)" using w'(3) by simp
    have "erase h (fold (update_cells 1) (h # erase_keys q)
                                (replicate (length (m_iblt st)) zeroEntry))
           = Inr (fold (update_cells 1) (erase_keys q) (replicate (length (m_iblt st)) zeroEntry))"
      by (rule erase_built[OF n0 dk lb])
    moreover have "m_iblt st = fold (update_cells 1) (h # erase_keys q)
                                (replicate (length (m_iblt st)) zeroEntry)"
      using w(2) unfolding erase(1) by simp
    ultimately have "erase h (m_iblt st) = Inr (fold (update_cells 1) (erase_keys q)
                                      (replicate (length (m_iblt st)) zeroEntry))"
      by simp
    then have t: "t = fold (update_cells 1) (erase_keys q)
                       (replicate (length (m_iblt st)) zeroEntry)"
      using erase(2) by simp
    have "store_inv st'"
    proof (rule store_invI)
      show "m_scheduler st' \<noteq> [] \<longrightarrow> length (m_iblt st') div N_HASH \<noteq> 0" using n0 by (simp add: erase(3) t)
      show "m_iblt st' = fold (update_cells 1) (erase_keys (m_scheduler st'))
                       (replicate (length (m_iblt st')) zeroEntry)"
        by (simp add: erase(3) t)
      show "distinct (erase_keys (m_scheduler st'))" using w'(3) by (simp add: erase(3))
      show "sorted (map fst (m_scheduler st'))" using srt by (simp add: erase(3))
      show "list_all (\<lambda>ev. clock st' \<le> fst ev \<and> fst ev \<le> clock st' + 2 * maxPubLifetime \<and>
                      timer_ptr_ok (length (objects st')) (snd ev)) (m_scheduler st')"
        using bounds by (simp add: erase(3) c)
      show "set (erase_keys (m_scheduler st')) \<subseteq> dom (m_hash2pub st')"
        using w'(6) by (simp add: erase(3))
      show "list_all (\<lambda>p. m_hash2pub st' (hashPub (objects st' ! p)) = Some p)
           (remove_ptrs (m_scheduler st'))"
        using w'(7) by (simp add: erase(3))
      show "distinct (remove_ptrs (m_scheduler st'))" using w'(8) by (simp add: erase(3))
      show "distinct (clear_ptrs (m_scheduler st'))" using w'(9) by (simp add: erase(3))
      show "erase_before_remove (objects st') (m_scheduler st')"
        using w'(10) by (simp add: erase(3))
    qed
    then show ?thesis by (simp add: erase(3) t)
  next
    case (remove p)
    note w' = w[unfolded remove(1), simplified]
    have hp: "m_hash2pub st (hashPub (objects st ! p)) = Some p" using w'(7) by simp
    have ne: "hashPub (objects st ! p') \<noteq> hashPub (objects st ! p)"
      if "p' \<in> set (remove_ptrs q)" for p'
    proof
      assume eq: "hashPub (objects st ! p') = hashPub (objects st ! p)"
      have "m_hash2pub st (hashPub (objects st ! p')) = Some p'"
        using w'(7) that by (simp add: list_all_iff)
      then have "p' = p" using hp unfolding eq by simp
      then show False using w'(8) that by simp
    qed
    have "store_inv st'"
    proof (rule store_invI)
      show "m_scheduler st' \<noteq> [] \<longrightarrow> length (m_iblt st') div N_HASH \<noteq> 0" using n0 by (simp add: remove(2))
      show "m_iblt st' = fold (update_cells 1) (erase_keys (m_scheduler st'))
                       (replicate (length (m_iblt st')) zeroEntry)"
        using w'(2) by (simp add: remove(2))
      show "distinct (erase_keys (m_scheduler st'))" using w'(3) by (simp add: remove(2))
      show "sorted (map fst (m_scheduler st'))" using srt by (simp add: remove(2))
      show "list_all (\<lambda>ev. clock st' \<le> fst ev \<and> fst ev \<le> clock st' + 2 * maxPubLifetime \<and>
                      timer_ptr_ok (length (objects st')) (snd ev)) (m_scheduler st')"
        using bounds by (simp add: remove(2) c)
      show "set (erase_keys (m_scheduler st')) \<subseteq> dom (m_hash2pub st')"
        using w'(6) w'(10) by (auto simp: remove(2))
      show "list_all (\<lambda>p. m_hash2pub st' (hashPub (objects st' ! p)) = Some p)
           (remove_ptrs (m_scheduler st'))"
        using w'(7) ne by (simp add: remove(2) list_all_iff)
      show "distinct (remove_ptrs (m_scheduler st'))" using w'(8) by (simp add: remove(2))
      show "distinct (clear_ptrs (m_scheduler st'))" using w'(9) by (simp add: remove(2))
      show "erase_before_remove (objects st') (m_scheduler st')"
        using w'(10) by (simp add: remove(2))
    qed
    then show ?thesis by (simp add: remove(2))
  qed
  show "store_inv st'" and "length (m_iblt st') = length (m_iblt st)" using store_inv' by simp_all
qed

lemma store_inv_m_publications [simp]: "store_inv (st\<lparr>m_publications := n\<rparr>) = store_inv st"
  by (simp add: store_inv_def)

lemma store_inv_delivered [simp]: "store_inv (st\<lparr>delivered := x\<rparr>) = store_inv st"
  by (simp add: store_inv_def)

lemma settled_m_publications [simp]: "settled (st\<lparr>m_publications := n\<rparr>) = settled st"
  by (simp add: settled_def)

lemma settled_delivered [simp]: "settled (st\<lparr>delivered := x\<rparr>) = settled st"
  by (simp add: settled_def)

lemma store_inv_fire_all:
  assumes "fire_all evs st = Inr st'" and "store_inv st" and "m_scheduler st = evs @ rest"
    and "length (m_scheduler st) < 2 ^ 32 - 1"
  shows "store_inv st' \<and> m_scheduler st' = rest \<and> objects st' = objects st \<and>
         length (m_iblt st') = length (m_iblt st) \<and>
         (\<forall>t. clock st \<le> t \<and> (\<forall>ev \<in> set evs. fst ev \<le> t) \<longrightarrow> clock st' \<le> t)"
  using assms
proof (induction evs arbitrary: st)
  case Nil
  then show ?case by simp
next
  case (Cons ev evs)
  obtain d cb where ev: "ev = (d, cb)" by (cases ev)
  from Cons.prems(3) have q: "m_scheduler st = (d, cb) # (evs @ rest)" by (simp add: ev)
  from Cons.prems(1) obtain s
    where f: "fire cb (st\<lparr>m_scheduler := evs @ rest, clock := max (clock st) d\<rparr>) = Inr s"
      and r: "fire_all evs s = Inr st'"
    by (simp add: ev q split: sum.splits)
  note h = store_inv_fire_head[OF Cons.prems(2) q Cons.prems(4) f]
  have l: "length (m_scheduler s) < 2 ^ 32 - 1" using Cons.prems(4) by (simp add: h(2) q)
  note ih = Cons.IH[OF r h(1) h(2) l]
  show ?case using ih by (simp add: h(3) h(4) h(5) ev)
qed

lemma dropWhile_sorted_gt:
  "sorted (map fst q) \<Longrightarrow> \<forall>ev \<in> set (dropWhile (\<lambda>ev. fst ev \<le> t) q). (t::nat) < fst ev"
  by (induction q) auto

lemma store_inv_clock:
  assumes "store_inv s" and "clock s \<le> t" and "\<forall>ev \<in> set (m_scheduler s). t \<le> fst ev"
  shows "store_inv (s\<lparr>clock := t\<rparr>)"
proof -
  note w = store_invD[OF assms(1)]
  have 5: "list_all (\<lambda>ev. t \<le> fst ev \<and> fst ev \<le> t + 2 * maxPubLifetime \<and>
                      timer_ptr_ok (length (objects s)) (snd ev)) (m_scheduler s)"
    using w(5) assms(2,3) by (fastforce simp: list_all_iff)
  show ?thesis
    using w(1,2,3,4,6,7,8,9,10) 5 by (intro store_invI) simp_all
qed

lemma store_inv_advance:
  assumes a: "advance t st = Inr st'" and store_inv: "store_inv st" and se: "settled st"
    and b: "length (m_scheduler st) < 2 ^ 32 - 1"
  shows "store_inv st'" and "settled st'" and "objects st' = objects st"
    and "m_scheduler st' = dropWhile (\<lambda>ev. fst ev \<le> t) (m_scheduler st)"
    and "clock st' = max (clock st) t" and "length (m_iblt st') = length (m_iblt st)"
proof -
  let ?P = "\<lambda>ev::nat \<times> timer. fst ev \<le> t"
  have gt: "\<forall>ev \<in> set (dropWhile ?P (m_scheduler st)). t < fst ev"
    by (rule dropWhile_sorted_gt[OF store_invD(4)[OF store_inv]])
  have all: "store_inv st' \<and> settled st' \<and> objects st' = objects st \<and>
             m_scheduler st' = dropWhile ?P (m_scheduler st) \<and> clock st' = max (clock st) t \<and>
             length (m_iblt st') = length (m_iblt st)"
  proof (cases "t < clock st")
    case True
    then have e: "st' = st" using a by (simp add: advance_def)
    have "\<forall>ev \<in> set (m_scheduler st). \<not> ?P ev"
      using se True by (auto simp: settled_def list_all_iff)
    then have "dropWhile ?P (m_scheduler st) = m_scheduler st"
      by (cases "m_scheduler st") auto
    then show ?thesis using store_inv se True by (simp add: e max_def)
  next
    case False
    from a False obtain s
      where f: "fire_all (takeWhile ?P (m_scheduler st)) st = Inr s" and e: "st' = s\<lparr>clock := t\<rparr>"
      by (auto simp: advance_def split: sum.splits)
    have q: "m_scheduler st = takeWhile ?P (m_scheduler st) @ dropWhile ?P (m_scheduler st)"
      by simp
    note h = store_inv_fire_all[OF f store_inv q b]
    have "clock st \<le> t \<and> (\<forall>ev \<in> set (takeWhile ?P (m_scheduler st)). fst ev \<le> t)"
      using False by (auto dest: set_takeWhileD)
    then have c: "clock s \<le> t"
      using h by blast
    have ms: "m_scheduler s = dropWhile ?P (m_scheduler st)" using h by simp
    have "store_inv (s\<lparr>clock := t\<rparr>)"
      using gt by (intro store_inv_clock c) (auto simp: ms h)
    moreover have "settled (s\<lparr>clock := t\<rparr>)"
      using gt by (simp add: settled_def list_all_iff ms)
    ultimately show ?thesis using h False by (simp add: e ms max_def)
  qed
  show "store_inv st'" "settled st'" "objects st' = objects st"
    "m_scheduler st' = dropWhile ?P (m_scheduler st)" "clock st' = max (clock st) t"
    "length (m_iblt st') = length (m_iblt st)"
    using all by simp_all
qed

lemma step_cases:
  assumes "step a st = Inr st'"
  obtains (advance) t where "a = Advance t" "advance t st = Inr st'"
    | (skip) "st' = st" "\<And>h. \<not> admits h a st"
    | (admit) pub l n p s x where "a = Publish pub \<or> a = Receive pub"
        "admits (hashPub pub) a st"
        "addToActive pub l (st\<lparr>m_publications := n\<rparr>) = Inr (p, s)" "st' = s\<lparr>delivered := x\<rparr>"
proof (cases a)
  case (Advance t)
  then show ?thesis using assms advance by simp
next
  case (Publish pub)
  show ?thesis
  proof (cases "isKnown st pub")
    case True
    then show ?thesis using assms Publish skip by (simp add: publish_store_def)
  next
    case False
    then obtain p s
      where "addToActive pub True (st\<lparr>m_publications := m_publications st + 1\<rparr>) = Inr (p, s)"
        and "st' = s"
      using assms Publish by (auto simp: publish_store_def split: sum.splits)
    then show ?thesis using admit[of pub True "m_publications st + 1" p s "delivered s"] False Publish
      by simp
  qed
next
  case (Receive pub)
  show ?thesis
  proof (cases "m_isExpired st (clock st) pub \<or> isKnown st pub")
    case True
    then show ?thesis using assms Receive skip by (simp add: onValidData_element_def)
  next
    case False
    then obtain p s
      where ad: "addToActive pub False st = Inr (p, s)"
        and st': "st' = (case find_subscription (m_subscription s) (pubName (objects s ! p)) of
                          Some sub \<Rightarrow> s\<lparr>delivered := delivered s @ [(snd sub, p)]\<rparr>
                        | None \<Rightarrow> s)"
      using assms Receive
      by (auto simp: onValidData_element_def Let_def split: sum.splits option.splits)
    have "\<exists>x. st' = s\<lparr>delivered := x\<rparr>"
    proof (cases "find_subscription (m_subscription s) (pubName (objects s ! p))")
      case None
      then have "st' = s\<lparr>delivered := delivered s\<rparr>" using st' by simp
      then show ?thesis by (rule exI)
    next
      case (Some sub)
      then have "st' = s\<lparr>delivered := delivered s @ [(snd sub, p)]\<rparr>" using st' by simp
      then show ?thesis by (rule exI)
    qed
    then obtain x where "st' = s\<lparr>delivered := x\<rparr>" by (rule exE)
    with ad have "addToActive pub False st = Inr (p, s)" and "st' = s\<lparr>delivered := x\<rparr>"
      by simp_all
    then show ?thesis using admit[of pub False "m_publications st" p s x] False Receive
      by simp
  qed
qed

lemma length_dropWhile_le': "length (dropWhile P q) \<le> length q"
  by (induction q) auto

lemma settled_addToActive:
  assumes store_inv: "store_inv st" and se: "settled st" and a: "addToActive pub l st = Inr (p, st')"
  shows "settled st'"
proof -
  have "\<forall>ev \<in> set (m_scheduler st'). clock st < fst ev"
    using se unfolding addToActive_scheduler[OF store_inv a]
    by (auto simp: settled_def list_all_iff maxPubLifetime_def)
  then show ?thesis
    by (simp add: settled_def list_all_iff addToActive_fields(5)[OF a])
qed

lemma inv_step:
  assumes s: "step a st = Inr st'" and store_inv: "store_inv st" and se: "settled st"
    and bq: "length (m_scheduler st) < 2 ^ 32 - 1"
  shows "store_inv st'" and "settled st'"
    and "length (m_iblt st') = length (m_iblt st)" and "clock st \<le> clock st'"
proof -
  have "store_inv st' \<and> settled st' \<and>
        length (m_iblt st') = length (m_iblt st) \<and> clock st \<le> clock st'"
    using s
  proof (cases rule: step_cases)
    case (advance t)
    note h = store_inv_advance[OF advance(2) store_inv se bq]
    show ?thesis using h(1,2) by (simp add: h(5) h(6))
  next
    case skip
    then show ?thesis using store_inv se by simp
  next
    case (admit pub l n p s x)
    let ?st = "st\<lparr>m_publications := n\<rparr>"
    have wf0: "store_inv ?st" and se0: "settled ?st" using store_inv se by simp_all
    have nk: "m_hash2pub ?st (hashPub pub) = None"
      using admit(2) by (cases a) (auto simp: isKnown_def isKnown_hash_def)
    have 1: "store_inv s" by (rule store_inv_addToActive[OF wf0 nk admit(3)])
    have 2: "settled s" by (rule settled_addToActive[OF wf0 se0 admit(3)])
    have 5: "length (m_iblt s) = length (m_iblt st)"
      by (simp add: addToActive_fields(4)[OF admit(3)])
    have 6: "clock s = clock st" by (simp add: addToActive_fields(5)[OF admit(3)])
    show ?thesis using 1 2 5 6 by (simp add: admit(4))
  qed
  then show "store_inv st'" and "settled st'"
    and "length (m_iblt st') = length (m_iblt st)" and "clock st \<le> clock st'"
    by simp_all
qed

lemma inv_run:
  assumes "run acts st = Inr st'" and "store_inv st" and "settled st"
    and "timers_below (2 ^ 32 - 1) acts st"
  shows "store_inv st' \<and> settled st' \<and>
         length (m_iblt st') = length (m_iblt st) \<and> clock st \<le> clock st'"
  using assms
proof (induction acts arbitrary: st)
  case Nil
  then show ?case by simp
next
  case (Cons a acts)
  from Cons.prems(1) obtain s where s: "step a st = Inr s" and r: "run acts s = Inr st'"
    by (simp split: sum.splits)
  have bq: "length (m_scheduler st) < 2 ^ 32 - 1"
    and b': "timers_below (2 ^ 32 - 1) acts s"
    using Cons.prems(4) s by simp_all
  note h = inv_step[OF s Cons.prems(2,3) bq]
  note ih = Cons.IH[OF r h(1,2) b']
  show ?case using ih h(3) h(4) by simp
qed

lemma SyncPubsub_new_fields:
  assumes "SyncPubsub_new max_size e isExp filt t = Inr E"
  shows "m_scheduler E = []" and "m_hash2pub E = Map.empty" and "m_iblt E = new_table e"
    and "clock E = t"
  using assms by (auto simp: SyncPubsub_new_def IBLT_new_def split: if_splits)

lemma store_inv_SyncPubsub_new:
  assumes "SyncPubsub_new max_size e isExp filt t = Inr E"
  shows "store_inv E" and "settled E"
proof -
  note f = SyncPubsub_new_fields[OF assms]
  have "new_table e = replicate (length (new_table e)) zeroEntry" by (rule new_table_replicate)
  then show "store_inv E" by (simp add: store_inv_def f)
  show "settled E" by (simp add: settled_def f)
qed

lemma trackD:
  assumes "track pub hp t0 st"
  shows "hp < length (objects st)" and "objects st ! hp = pub"
    and "m_hash2pub st (hashPub pub) =
           (if hp \<in> set (remove_ptrs (m_scheduler st)) then Some hp else None)"
    and "live_bit st hp = (hp \<in> set (clear_ptrs (m_scheduler st)))"
    and "list_all (due pub hp t0) (m_scheduler st)"
    and "clock st < t0 + maxPubLifetime \<longrightarrow> hp \<in> set (clear_ptrs (m_scheduler st))"
    and "clock st < t0 + maxPubLifetime + maxClockSkew \<longrightarrow>
           hashPub pub \<in> set (erase_keys (m_scheduler st))"
    and "clock st < t0 + maxPubLifetime * 2 \<longrightarrow> hp \<in> set (remove_ptrs (m_scheduler st))"
  using assms unfolding track_def Let_def by blast+

lemma trackI:
  assumes "hp < length (objects st)" and "objects st ! hp = pub"
    and "m_hash2pub st (hashPub pub) =
           (if hp \<in> set (remove_ptrs (m_scheduler st)) then Some hp else None)"
    and "live_bit st hp = (hp \<in> set (clear_ptrs (m_scheduler st)))"
    and "list_all (due pub hp t0) (m_scheduler st)"
    and "clock st < t0 + maxPubLifetime \<longrightarrow> hp \<in> set (clear_ptrs (m_scheduler st))"
    and "clock st < t0 + maxPubLifetime + maxClockSkew \<longrightarrow>
           hashPub pub \<in> set (erase_keys (m_scheduler st))"
    and "clock st < t0 + maxPubLifetime * 2 \<longrightarrow> hp \<in> set (remove_ptrs (m_scheduler st))"
  shows "track pub hp t0 st"
  using assms unfolding track_def Let_def by blast

lemma track_m_publications [simp]: "track pub hp t0 (st\<lparr>m_publications := n\<rparr>) = track pub hp t0 st"
  by (simp add: track_def live_bit_def)

lemma track_delivered [simp]: "track pub hp t0 (st\<lparr>delivered := x\<rparr>) = track pub hp t0 st"
  by (simp add: track_def live_bit_def)

lemma track_clock:
  assumes "track pub hp t0 st" and "clock st \<le> t"
  shows "track pub hp t0 (st\<lparr>clock := t\<rparr>)"
proof -
  note k = trackD[OF assms(1)]
  show ?thesis
    using k assms(2) by (intro trackI) (simp_all add: live_bit_def)
qed

lemma due_clear_mem:
  "list_all (due pub hp t0) q \<Longrightarrow> (d, ClearLive hp) \<in> set q \<Longrightarrow> d = t0 + maxPubLifetime"
  by (force simp: list_all_iff)

lemma due_erase_mem:
  "list_all (due pub hp t0) q \<Longrightarrow> (d, EraseHash (hashPub pub)) \<in> set q \<Longrightarrow>
   d = t0 + maxPubLifetime + maxClockSkew"
  by (force simp: list_all_iff)

lemma due_remove_mem:
  "list_all (due pub hp t0) q \<Longrightarrow> (d, RemoveFromActive hp) \<in> set q \<Longrightarrow>
   d = t0 + maxPubLifetime * 2"
  by (force simp: list_all_iff)

lemma live_bit_cleared: "(v AND NOT 1) AND (1::u8) = 0"
  by (simp add: and.assoc)

lemma track_settled:
  assumes k: "track pub hp t0 st" and se: "settled st"
  shows "isKnown st pub = (clock st < t0 + maxPubLifetime * 2)"
    and "live_bit st hp = (clock st < t0 + maxPubLifetime)"
    and "(hashPub pub \<in> set (erase_keys (m_scheduler st))) =
           (clock st < t0 + maxPubLifetime + maxClockSkew)"
proof -
  note t = trackD[OF k]
  have s: "\<forall>ev \<in> set (m_scheduler st). clock st < fst ev"
    using se by (simp add: settled_def list_all_iff)
  have "hp \<in> set (remove_ptrs (m_scheduler st)) \<Longrightarrow> clock st < t0 + maxPubLifetime * 2"
    using s due_remove_mem[OF t(5)] by (fastforce simp: remove_ptrs_mem)
  then show "isKnown st pub = (clock st < t0 + maxPubLifetime * 2)"
    using t(3) t(8) by (auto simp: isKnown_def isKnown_hash_def)
  have "hp \<in> set (clear_ptrs (m_scheduler st)) \<Longrightarrow> clock st < t0 + maxPubLifetime"
    using s due_clear_mem[OF t(5)] by (fastforce simp: clear_ptrs_mem)
  then show "live_bit st hp = (clock st < t0 + maxPubLifetime)"
    using t(4) t(6) by auto
  have "hashPub pub \<in> set (erase_keys (m_scheduler st)) \<Longrightarrow>
        clock st < t0 + maxPubLifetime + maxClockSkew"
    using s due_erase_mem[OF t(5)] by (fastforce simp: erase_keys_mem)
  then show "(hashPub pub \<in> set (erase_keys (m_scheduler st))) =
           (clock st < t0 + maxPubLifetime + maxClockSkew)"
    using t(7) by auto
qed

lemma due_enqueue:
  "list_all (due pub hp t0) (enqueue ev q) = (due pub hp t0 ev \<and> list_all (due pub hp t0) q)"
  by (simp add: list_all_iff)

lemma track_addToActive_self:
  assumes store_inv: "store_inv st" and nk: "m_hash2pub st (hashPub pub) = None"
    and a: "addToActive pub l st = Inr (hp, st')"
  shows "track pub hp (clock st) st'"
proof (rule trackI)
  let ?q = "m_scheduler st"
  let ?n = "length (objects st)"
  let ?h = "hashPub pub"
  note f = addToActive_fields[OF a]
  note s = addToActive_scheduler[OF store_inv a]
  note w = store_invD[OF store_inv]
  have hp: "hp = ?n" by (rule addToActive_effect(2)[OF a])
  have ok: "list_all (\<lambda>ev. timer_ptr_ok ?n (snd ev)) ?q"
    using w(5) by (simp add: list_all_iff)
  note fresh = ptrs_ok[OF ok]
  have hk: "?h \<notin> set (erase_keys ?q)" using w(6) nk by auto
  have rp: "remove_ptrs (m_scheduler st') = remove_ptrs ?q @ [?n]"
    by (simp add: s remove_ptrs_append)
  have cp: "set (clear_ptrs (m_scheduler st')) = insert ?n (set (clear_ptrs ?q))"
    by (simp add: s clear_ptrs_append)
  have ek: "erase_keys (m_scheduler st') = erase_keys ?q @ [?h]"
    by (simp add: s erase_keys_append)
  show "hp < length (objects st')" by (simp add: f hp)
  show "objects st' ! hp = pub" by (simp add: f hp)
  show "m_hash2pub st' ?h = (if hp \<in> set (remove_ptrs (m_scheduler st')) then Some hp else None)"
    by (simp add: f hp rp)
  show "live_bit st' hp = (hp \<in> set (clear_ptrs (m_scheduler st')))"
    by (simp add: f hp cp live_bit_def)
  have old: "due pub ?n (clock st) ev" if "ev \<in> set ?q" for ev
  proof (cases ev)
    case (Pair d cb)
    show ?thesis
    proof (cases cb)
      case (ClearLive p)
      then have "p \<in> set (clear_ptrs ?q)" using that Pair by (auto simp: clear_ptrs_mem)
      then have "p \<noteq> ?n" using fresh(2) by auto
      then show ?thesis by (simp add: Pair ClearLive)
    next
      case (EraseHash k)
      then have "k \<in> set (erase_keys ?q)" using that Pair by (auto simp: erase_keys_mem)
      then have "k \<noteq> ?h" using hk by auto
      then show ?thesis by (simp add: Pair EraseHash)
    next
      case (RemoveFromActive p)
      then have "p \<in> set (remove_ptrs ?q)" using that Pair by (auto simp: remove_ptrs_mem)
      then have "p \<noteq> ?n" using fresh(1) by auto
      then show ?thesis by (simp add: Pair RemoveFromActive)
    qed
  qed
  then have "list_all (due pub ?n (clock st)) ?q" by (simp add: list_all_iff)
  then show "list_all (due pub hp (clock st)) (m_scheduler st')"
    by (simp add: s hp due_enqueue maxPubLifetime_def maxClockSkew_def)
  show "clock st' < clock st + maxPubLifetime \<longrightarrow> hp \<in> set (clear_ptrs (m_scheduler st'))"
    by (simp add: cp hp)
  show "clock st' < clock st + maxPubLifetime + maxClockSkew \<longrightarrow>
          ?h \<in> set (erase_keys (m_scheduler st'))"
    by (simp add: ek)
  show "clock st' < clock st + maxPubLifetime * 2 \<longrightarrow> hp \<in> set (remove_ptrs (m_scheduler st'))"
    by (simp add: rp hp)
qed

lemma track_addToActive_other:
  assumes store_inv: "store_inv st" and k: "track pub hp t0 st" and ne: "hashPub pub' \<noteq> hashPub pub"
    and a: "addToActive pub' l st = Inr (p, st')"
  shows "track pub hp t0 st'"
proof (rule trackI)
  let ?q = "m_scheduler st"
  let ?n = "length (objects st)"
  note f = addToActive_fields[OF a]
  note s = addToActive_scheduler[OF store_inv a]
  note t = trackD[OF k]
  have n: "hp \<noteq> ?n" using t(1) by simp
  have rp: "remove_ptrs (m_scheduler st') = remove_ptrs ?q @ [?n]"
    by (simp add: s remove_ptrs_append)
  have cp: "set (clear_ptrs (m_scheduler st')) = insert ?n (set (clear_ptrs ?q))"
    by (simp add: s clear_ptrs_append)
  have ek: "erase_keys (m_scheduler st') = erase_keys ?q @ [hashPub pub']"
    by (simp add: s erase_keys_append)
  show "hp < length (objects st')" using t(1) by (simp add: f)
  show "objects st' ! hp = pub" using t(1,2) by (simp add: f nth_append)
  show "m_hash2pub st' (hashPub pub) =
          (if hp \<in> set (remove_ptrs (m_scheduler st')) then Some hp else None)"
    using t(3) n ne by (simp add: f rp)
  show "live_bit st' hp = (hp \<in> set (clear_ptrs (m_scheduler st')))"
    using t(4) n by (simp add: f cp live_bit_def)
  show "list_all (due pub hp t0) (m_scheduler st')"
    using t(5) n ne by (simp add: s due_enqueue)
  show "clock st' < t0 + maxPubLifetime \<longrightarrow> hp \<in> set (clear_ptrs (m_scheduler st'))"
    using t(6) by (simp add: cp f)
  show "clock st' < t0 + maxPubLifetime + maxClockSkew \<longrightarrow>
          hashPub pub \<in> set (erase_keys (m_scheduler st'))"
    using t(7) by (simp add: ek f)
  show "clock st' < t0 + maxPubLifetime * 2 \<longrightarrow> hp \<in> set (remove_ptrs (m_scheduler st'))"
    using t(8) by (simp add: rp f)
qed

lemma live_bit_cleared': "(v AND - 2) AND (1::u8) = 0"
  using live_bit_cleared[of v] by simp

lemma track_fire_head:
  assumes store_inv: "store_inv st" and k: "track pub hp t0 st" and q: "m_scheduler st = (d, cb) # q"
    and f: "fire cb (st\<lparr>m_scheduler := q, clock := max (clock st) d\<rparr>) = Inr st'"
  shows "track pub hp t0 st'"
proof -
  note w = store_invD[OF store_inv, unfolded q]
  note t = trackD[OF k, unfolded q]
  have c: "max (clock st) d = d" and cd: "clock st \<le> d" using w(5) by simp_all
  have ge: "\<forall>x \<in> set q. d \<le> fst x" using w(4) by auto
  have dq: "list_all (due pub hp t0) q" using t(5) by simp
  from f show ?thesis
  proof (cases rule: fire_cases)
    case (clear p)
    note w' = w[unfolded clear(1), simplified]
    note t' = t[unfolded clear(1), simplified]
    show ?thesis
    proof (rule trackI)
      show "hp < length (objects st')" using t'(1) by (simp add: clear(2))
      show "objects st' ! hp = pub" using t'(2) by (simp add: clear(2))
      show "m_hash2pub st' (hashPub pub) =
              (if hp \<in> set (remove_ptrs (m_scheduler st')) then Some hp else None)"
        using t'(3) by (simp add: clear(2))
      show "live_bit st' hp = (hp \<in> set (clear_ptrs (m_scheduler st')))"
      proof (cases "p = hp")
        case True
        then have "hp \<notin> set (clear_ptrs q)" using w'(9) by simp
        then show ?thesis using True by (simp add: clear(2) live_bit_def live_bit_cleared')
      next
        case False
        then show ?thesis using t'(4) by (auto simp: clear(2) live_bit_def)
      qed
      show "list_all (due pub hp t0) (m_scheduler st')" using dq by (simp add: clear(2))
      show "clock st' < t0 + maxPubLifetime \<longrightarrow> hp \<in> set (clear_ptrs (m_scheduler st'))"
        using t'(5,6) cd by (auto simp: clear(2) c)
      show "clock st' < t0 + maxPubLifetime + maxClockSkew \<longrightarrow>
              hashPub pub \<in> set (erase_keys (m_scheduler st'))"
        using t'(7) cd by (auto simp: clear(2) c)
      show "clock st' < t0 + maxPubLifetime * 2 \<longrightarrow> hp \<in> set (remove_ptrs (m_scheduler st'))"
        using t'(8) cd by (auto simp: clear(2) c)
    qed
  next
    case (erase h u)
    note t' = t[unfolded erase(1), simplified]
    show ?thesis
    proof (rule trackI)
      show "hp < length (objects st')" using t'(1) by (simp add: erase(3))
      show "objects st' ! hp = pub" using t'(2) by (simp add: erase(3))
      show "m_hash2pub st' (hashPub pub) =
              (if hp \<in> set (remove_ptrs (m_scheduler st')) then Some hp else None)"
        using t'(3) by (simp add: erase(3))
      show "live_bit st' hp = (hp \<in> set (clear_ptrs (m_scheduler st')))"
        using t'(4) by (simp add: erase(3) live_bit_def)
      show "list_all (due pub hp t0) (m_scheduler st')" using dq by (simp add: erase(3))
      show "clock st' < t0 + maxPubLifetime \<longrightarrow> hp \<in> set (clear_ptrs (m_scheduler st'))"
        using t'(6) cd by (auto simp: erase(3) c)
      show "clock st' < t0 + maxPubLifetime + maxClockSkew \<longrightarrow>
              hashPub pub \<in> set (erase_keys (m_scheduler st'))"
        using t'(5,7) cd by (auto simp: erase(3) c)
      show "clock st' < t0 + maxPubLifetime * 2 \<longrightarrow> hp \<in> set (remove_ptrs (m_scheduler st'))"
        using t'(8) cd by (auto simp: erase(3) c)
    qed
  next
    case (remove p)
    note w' = w[unfolded remove(1), simplified]
    note t' = t[unfolded remove(1), simplified]
    show ?thesis
    proof (cases "p = hp")
      case True
      have d: "d = t0 + maxPubLifetime * 2" using t'(5) True by simp
      have nr: "hp \<notin> set (remove_ptrs q)" using w'(8) True by simp
      have nc: "hp \<notin> set (clear_ptrs q)"
      proof
        assume "hp \<in> set (clear_ptrs q)"
        then obtain d' where m: "(d', ClearLive hp) \<in> set q" by (auto simp: clear_ptrs_mem)
        then have "d' = t0 + maxPubLifetime" by (rule due_clear_mem[OF dq])
        moreover have "d \<le> d'" using ge m by force
        ultimately show False using d by (simp add: maxPubLifetime_def)
      qed
      show ?thesis
      proof (rule trackI)
        show "hp < length (objects st')" using t'(1) by (simp add: remove(2))
        show "objects st' ! hp = pub" using t'(2) by (simp add: remove(2))
        show "m_hash2pub st' (hashPub pub) =
                (if hp \<in> set (remove_ptrs (m_scheduler st')) then Some hp else None)"
          using nr t'(2) True by (simp add: remove(2))
        show "live_bit st' hp = (hp \<in> set (clear_ptrs (m_scheduler st')))"
          using nc True by (simp add: remove(2) live_bit_def)
        show "list_all (due pub hp t0) (m_scheduler st')" using dq by (simp add: remove(2))
        show "clock st' < t0 + maxPubLifetime \<longrightarrow> hp \<in> set (clear_ptrs (m_scheduler st'))"
          by (simp add: remove(2) c d)
        show "clock st' < t0 + maxPubLifetime + maxClockSkew \<longrightarrow>
                hashPub pub \<in> set (erase_keys (m_scheduler st'))"
          by (simp add: remove(2) c d maxPubLifetime_def maxClockSkew_def)
        show "clock st' < t0 + maxPubLifetime * 2 \<longrightarrow> hp \<in> set (remove_ptrs (m_scheduler st'))"
          by (simp add: remove(2) c d)
      qed
    next
      case False
      have "m_hash2pub st (hashPub (objects st ! p)) = Some p" using w'(7) by simp
      then have kn: "hashPub (objects st ! p) \<noteq> hashPub pub"
        using t(3) False by (auto split: if_splits)
      show ?thesis
      proof (rule trackI)
        show "hp < length (objects st')" using t'(1) by (simp add: remove(2))
        show "objects st' ! hp = pub" using t'(2) by (simp add: remove(2))
        show "m_hash2pub st' (hashPub pub) =
                (if hp \<in> set (remove_ptrs (m_scheduler st')) then Some hp else None)"
          using t'(3) kn False by (simp add: remove(2))
        show "live_bit st' hp = (hp \<in> set (clear_ptrs (m_scheduler st')))"
          using t'(4) False by (simp add: remove(2) live_bit_def)
        show "list_all (due pub hp t0) (m_scheduler st')" using dq by (simp add: remove(2))
        show "clock st' < t0 + maxPubLifetime \<longrightarrow> hp \<in> set (clear_ptrs (m_scheduler st'))"
          using t'(6) cd by (auto simp: remove(2) c)
        show "clock st' < t0 + maxPubLifetime + maxClockSkew \<longrightarrow>
                hashPub pub \<in> set (erase_keys (m_scheduler st'))"
          using t'(7) cd by (auto simp: remove(2) c)
        show "clock st' < t0 + maxPubLifetime * 2 \<longrightarrow> hp \<in> set (remove_ptrs (m_scheduler st'))"
          using t'(8) False cd by (auto simp: remove(2) c)
      qed
    qed
  qed
qed

lemma track_fire_all:
  assumes "fire_all evs st = Inr st'" and "store_inv st" and "track pub hp t0 st"
    and "m_scheduler st = evs @ rest" and "length (m_scheduler st) < 2 ^ 32 - 1"
  shows "track pub hp t0 st'"
  using assms
proof (induction evs arbitrary: st)
  case Nil
  then show ?case by simp
next
  case (Cons ev evs)
  obtain d cb where ev: "ev = (d, cb)" by (cases ev)
  from Cons.prems(4) have q: "m_scheduler st = (d, cb) # (evs @ rest)" by (simp add: ev)
  from Cons.prems(1) obtain s
    where f: "fire cb (st\<lparr>m_scheduler := evs @ rest, clock := max (clock st) d\<rparr>) = Inr s"
      and r: "fire_all evs s = Inr st'"
    by (simp add: ev q split: sum.splits)
  note h = store_inv_fire_head[OF Cons.prems(2) q Cons.prems(5) f]
  have k: "track pub hp t0 s" by (rule track_fire_head[OF Cons.prems(2,3) q f])
  have l: "length (m_scheduler s) < 2 ^ 32 - 1" using Cons.prems(5) by (simp add: h(2) q)
  show ?case by (rule Cons.IH[OF r h(1) k h(2) l])
qed

lemma track_advance:
  assumes a: "advance t st = Inr st'" and store_inv: "store_inv st" and k: "track pub hp t0 st"
    and b: "length (m_scheduler st) < 2 ^ 32 - 1"
  shows "track pub hp t0 st'"
proof (cases "t < clock st")
  case True
  then have "st' = st" using a by (simp add: advance_def)
  then show ?thesis using k by simp
next
  case False
  let ?P = "\<lambda>ev::nat \<times> timer. fst ev \<le> t"
  from a False obtain s
    where f: "fire_all (takeWhile ?P (m_scheduler st)) st = Inr s" and e: "st' = s\<lparr>clock := t\<rparr>"
    by (auto simp: advance_def split: sum.splits)
  have q: "m_scheduler st = takeWhile ?P (m_scheduler st) @ dropWhile ?P (m_scheduler st)"
    by simp
  note h = store_inv_fire_all[OF f store_inv q b]
  have "clock st \<le> t \<and> (\<forall>ev \<in> set (takeWhile ?P (m_scheduler st)). fst ev \<le> t)"
    using False by (auto dest: set_takeWhileD)
  then have c: "clock s \<le> t" using h by blast
  have "track pub hp t0 s" by (rule track_fire_all[OF f store_inv k q b])
  then show ?thesis unfolding e using c by (rule track_clock)
qed

lemma track_step:
  assumes s: "step a st = Inr st'" and store_inv: "store_inv st" and k: "track pub hp t0 st"
    and b: "length (m_scheduler st) < 2 ^ 32 - 1"
    and na: "\<not> admits (hashPub pub) a st"
  shows "track pub hp t0 st'"
  using s
proof (cases rule: step_cases)
  case (advance t)
  show ?thesis by (rule track_advance[OF advance(2) store_inv k b])
next
  case skip
  then show ?thesis using k by simp
next
  case (admit pub' l n p s x)
  let ?st = "st\<lparr>m_publications := n\<rparr>"
  have wf0: "store_inv ?st" and k0: "track pub hp t0 ?st" using store_inv k by simp_all
  have ne: "hashPub pub' \<noteq> hashPub pub" using admit(2) na by auto
  have "track pub hp t0 s" by (rule track_addToActive_other[OF wf0 k0 ne admit(3)])
  then show ?thesis by (simp add: admit(4))
qed

lemma track_run:
  assumes "run acts st = Inr st'" and "store_inv st" and "settled st" and "track pub hp t0 st"
    and "timers_below (2 ^ 32 - 1) acts st"
    and "\<not> readmitted (hashPub pub) acts st"
  shows "track pub hp t0 st'"
  using assms
proof (induction acts arbitrary: st)
  case Nil
  then show ?case by simp
next
  case (Cons a acts)
  from Cons.prems(1) obtain s where s: "step a st = Inr s" and r: "run acts s = Inr st'"
    by (simp split: sum.splits)
  have bq: "length (m_scheduler st) < 2 ^ 32 - 1"
    and b': "timers_below (2 ^ 32 - 1) acts s"
    using Cons.prems(5) s by simp_all
  have na: "\<not> admits (hashPub pub) a st" and nr: "\<not> readmitted (hashPub pub) acts s"
    using Cons.prems(6) s by simp_all
  note h = inv_step[OF s Cons.prems(2,3) bq]
  have k: "track pub hp t0 s" by (rule track_step[OF s Cons.prems(2,4) bq na])
  show ?case by (rule Cons.IH[OF r h(1,2) k b' nr])
qed

lemma fire_head_succeeds:
  assumes store_inv: "store_inv st" and q: "m_scheduler st = (d, cb) # q"
    and b: "length (m_scheduler st) < 2 ^ 32 - 1"
  shows "\<exists>st'. fire cb (st\<lparr>m_scheduler := q, clock := max (clock st) d\<rparr>) = Inr st'"
proof (cases cb)
  case (ClearLive p)
  then show ?thesis by (simp add: fire_def)
next
  case (RemoveFromActive p)
  then show ?thesis by (simp add: fire_def)
next
  case (EraseHash h)
  note w = store_invD[OF store_inv, unfolded q EraseHash]
  have n0: "length (m_iblt st) div N_HASH \<noteq> 0" using w(1) by simp
  have kl: "length (erase_keys ((d, cb) # q)) \<le> length ((d, cb) # q)"
    by (rule length_erase_keys)
  have lb: "length (h # erase_keys q) < 2 ^ 32 - 1" using kl b unfolding q EraseHash by simp
  have dk: "distinct (h # erase_keys q)" using w(3) by simp
  have "erase h (fold (update_cells 1) (h # erase_keys q)
                                (replicate (length (m_iblt st)) zeroEntry))
           = Inr (fold (update_cells 1) (erase_keys q) (replicate (length (m_iblt st)) zeroEntry))"
    by (rule erase_built[OF n0 dk lb])
  moreover have "m_iblt st = fold (update_cells 1) (h # erase_keys q)
                                (replicate (length (m_iblt st)) zeroEntry)"
    using w(2) by simp
  ultimately have "erase h (m_iblt st) = Inr (fold (update_cells 1) (erase_keys q)
                                      (replicate (length (m_iblt st)) zeroEntry))"
    by simp
  then show ?thesis by (simp add: fire_def EraseHash)
qed

lemma fire_all_succeeds:
  assumes "store_inv st" and "m_scheduler st = evs @ rest" and "length (m_scheduler st) < 2 ^ 32 - 1"
  shows "\<exists>st'. fire_all evs st = Inr st'"
  using assms
proof (induction evs arbitrary: st)
  case Nil
  then show ?case by simp
next
  case (Cons ev evs)
  obtain d cb where ev: "ev = (d, cb)" by (cases ev)
  from Cons.prems(2) have q: "m_scheduler st = (d, cb) # (evs @ rest)" by (simp add: ev)
  obtain s where f: "fire cb (st\<lparr>m_scheduler := evs @ rest, clock := max (clock st) d\<rparr>) = Inr s"
    using fire_head_succeeds[OF Cons.prems(1) q Cons.prems(3)] by (rule exE)
  note h = store_inv_fire_head[OF Cons.prems(1) q Cons.prems(3) f]
  have l: "length (m_scheduler s) < 2 ^ 32 - 1" using Cons.prems(3) by (simp add: h(2) q)
  obtain st' where "fire_all evs s = Inr st'" using Cons.IH[OF h(1) h(2) l] by (rule exE)
  then have "fire_all (ev # evs) st = Inr st'" using f by (simp add: ev q)
  then show ?case by (rule exI)
qed

lemma advance_succeeds:
  assumes store_inv: "store_inv st" and b: "length (m_scheduler st) < 2 ^ 32 - 1"
  shows "\<exists>st'. advance t st = Inr st'"
proof -
  let ?P = "\<lambda>ev::nat \<times> timer. fst ev \<le> t"
  have q: "m_scheduler st = takeWhile ?P (m_scheduler st) @ dropWhile ?P (m_scheduler st)"
    by simp
  obtain s where "fire_all (takeWhile ?P (m_scheduler st)) st = Inr s"
    using fire_all_succeeds[OF store_inv q b] by (rule exE)
  then show ?thesis by (simp add: advance_def)
qed

lemma step_succeeds:
  assumes store_inv: "store_inv st" and b: "length (m_scheduler st) < 2 ^ 32 - 1"
    and n: "length (m_iblt st) div N_HASH \<noteq> 0"
  shows "\<exists>st'. step a st = Inr st'"
proof (cases a)
  case (Advance t)
  then show ?thesis using advance_succeeds[OF store_inv b] by simp
next
  case (Publish pub)
  let ?st = "st\<lparr>m_publications := m_publications st + 1\<rparr>"
  have "length (m_iblt ?st) div N_HASH \<noteq> 0" using n by simp
  then obtain s where "addToActive pub True ?st = Inr (length (objects ?st), s)"
    using addToActive_succeeds[of ?st pub True] by blast
  then show ?thesis using Publish by (simp add: publish_store_def)
next
  case (Receive pub)
  obtain s where "addToActive pub False st = Inr (length (objects st), s)"
    using addToActive_succeeds[OF n, of pub False] by blast
  then show ?thesis using Receive
    by (simp add: onValidData_element_def Let_def split: option.splits)
qed

lemma run_succeeds:
  assumes "store_inv st" and "settled st"
    and "timers_below (2 ^ 32 - 1) acts st"
    and "length (m_iblt st) div N_HASH \<noteq> 0"
  shows "\<exists>st'. run acts st = Inr st'"
  using assms
proof (induction acts arbitrary: st)
  case Nil
  then show ?case by simp
next
  case (Cons a acts)
  have bq: "length (m_scheduler st) < 2 ^ 32 - 1" using Cons.prems(3) by simp
  obtain s where s: "step a st = Inr s"
    using step_succeeds[OF Cons.prems(1) bq Cons.prems(4)] by (rule exE)
  have b': "timers_below (2 ^ 32 - 1) acts s" using Cons.prems(3) s by simp
  note h = inv_step[OF s Cons.prems(1,2) bq]
  have n: "length (m_iblt s) div N_HASH \<noteq> 0" using Cons.prems(4) by (simp add: h(3))
  obtain st' where "run acts s = Inr st'" using Cons.IH[OF h(1,2) b' n] by (rule exE)
  then have "run (a # acts) st = Inr st'" using s by simp
  then show ?case by (rule exI)
qed

lemma track_admit:
  assumes wf0: "store_inv st0" and se0: "settled st0"
    and a: "a = Publish pub \<or> a = Receive pub"
    and ad: "admits (hashPub pub) a st0" and s: "step a st0 = Inr st1"
  shows "track pub (length (objects st0)) (clock st0) st1"
    and "length (m_iblt st0) div N_HASH \<noteq> 0" and "clock st1 = clock st0"
    and "store_inv st1" and "settled st1"
    and "length (m_iblt st1) = length (m_iblt st0)"
    and "length (m_scheduler st1) = length (m_scheduler st0) + 3"
proof -
  have "track pub (length (objects st0)) (clock st0) st1 \<and>
        length (m_iblt st0) div N_HASH \<noteq> 0 \<and> clock st1 = clock st0 \<and>
        store_inv st1 \<and> settled st1 \<and> length (m_iblt st1) = length (m_iblt st0) \<and>
        length (m_scheduler st1) = length (m_scheduler st0) + 3"
    using s
  proof (cases rule: step_cases)
    case (advance t)
    then show ?thesis using a by auto
  next
    case skip
    then show ?thesis using ad by simp
  next
    case (admit pub' l n p s' x)
    have e: "pub' = pub" using a admit(1) by auto
    let ?st = "st0\<lparr>m_publications := n\<rparr>"
    have w: "store_inv ?st" and se: "settled ?st" using wf0 se0 by simp_all
    have nk: "m_hash2pub ?st (hashPub pub) = None"
      using ad a by (auto simp: isKnown_def isKnown_hash_def)
    note ad' = admit(3)[unfolded e]
    have p: "p = length (objects ?st)" by (rule addToActive_effect(2)[OF ad'])
    have 1: "track pub p (clock ?st) s'"
      by (rule track_addToActive_self[OF w nk ad'])
    have 2: "length (m_iblt ?st) div N_HASH \<noteq> 0"
      by (rule addToActive_effect(1)[OF ad'])
    have 3: "clock s' = clock ?st" by (rule addToActive_fields(5)[OF ad'])
    have 4: "store_inv s'" by (rule store_inv_addToActive[OF w nk ad'])
    have 5: "settled s'" by (rule settled_addToActive[OF w se ad'])
    have 6: "length (m_iblt s') = length (m_iblt ?st)"
      by (simp add: addToActive_fields(4)[OF ad'])
    have 7: "length (m_scheduler s') = length (m_scheduler ?st) + 3"
      unfolding addToActive_scheduler[OF w ad'] by simp
    show ?thesis using 1 2 3 4 5 6 7 p by (simp add: admit(4))
  qed
  then show "track pub (length (objects st0)) (clock st0) st1"
    and "length (m_iblt st0) div N_HASH \<noteq> 0" and "clock st1 = clock st0"
    and "store_inv st1" and "settled st1"
    and "length (m_iblt st1) = length (m_iblt st0)"
    and "length (m_scheduler st1) = length (m_scheduler st0) + 3"
    by simp_all
qed

text \<open>
  C8 (as amended). Let an engine be made by the constructor and have run any actions;
  let a publication be admitted at time \<open>t0\<close>, by \<open>publish\<close> or by \<open>onValidData\<close>, and
  let any further actions follow, none of which admits a publication of the same
  digest, with fewer than \<open>2^32 - 1\<close> timers pending before each action. Then the
  further actions do not fail, and at the time \<open>t\<close> they end at: \<open>t0 \<le> t\<close>; \<open>isKnown\<close>
  of the publication is true exactly if \<open>t < t0 + 2 * maxPubLifetime\<close>; the live bit
  of its handle is set exactly if \<open>t < t0 + maxPubLifetime\<close>; and its digest is among
  the digests that the table \<open>m_iblt\<close> holds exactly if
  \<open>t < t0 + maxPubLifetime + maxClockSkew\<close>, the table being the new table with each
  of these digests inserted once.
\<close>

theorem publication_lifetime:
  assumes n: "SyncPubsub_new max_size e isExp filt c0 = Inr E"
    and r0: "run acts0 E = Inr st0"
    and b0: "timers_below (2 ^ 32 - 1) acts0 E"
    and a: "a = Publish pub \<or> a = Receive pub"
    and ad: "admits (hashPub pub) a st0"
    and s: "step a st0 = Inr st1"
    and nr: "\<not> readmitted (hashPub pub) acts st1"
    and b: "timers_below (2 ^ 32 - 1) acts st1"
  shows "\<exists>st2. run acts st1 = Inr st2 \<and> clock st0 \<le> clock st2 \<and>
           isKnown st2 pub = (clock st2 < clock st0 + maxPubLifetime * 2) \<and>
           live_bit st2 (length (objects st0)) = (clock st2 < clock st0 + maxPubLifetime) \<and>
           (hashPub pub \<in> set (erase_keys (m_scheduler st2))) =
             (clock st2 < clock st0 + maxPubLifetime + maxClockSkew) \<and>
           distinct (erase_keys (m_scheduler st2)) \<and>
           m_iblt st2 = fold (update_cells 1) (erase_keys (m_scheduler st2)) (new_table e)"
proof -
  note e = store_inv_SyncPubsub_new[OF n]
  have i0: "store_inv st0 \<and> settled st0 \<and>
         length (m_iblt st0) = length (m_iblt E) \<and> clock E \<le> clock st0"
    by (rule inv_run[OF r0 e b0])
  then have wf0: "store_inv st0" and se0: "settled st0"
    and li0: "length (m_iblt st0) = length (new_table e)"
    by (simp_all add: SyncPubsub_new_fields[OF n])
  note k1 = track_admit[OF wf0 se0 a ad s]
  have i1: "store_inv st1" "settled st1" "length (m_iblt st1) = length (m_iblt st0)"
    "clock st0 \<le> clock st1"
    using k1(4,5,6) k1(3) by simp_all
  have n1: "length (m_iblt st1) div N_HASH \<noteq> 0" using k1(2) by (simp add: i1(3))
  obtain st2 where r: "run acts st1 = Inr st2"
    using run_succeeds[OF i1(1,2) b n1] by (rule exE)
  have i2: "store_inv st2 \<and> settled st2 \<and>
         length (m_iblt st2) = length (m_iblt st1) \<and> clock st1 \<le> clock st2"
    by (rule inv_run[OF r i1(1,2) b])
  then have wf2: "store_inv st2" and se2: "settled st2" by simp_all
  have k2: "track pub (length (objects st0)) (clock st0) st2"
    by (rule track_run[OF r i1(1,2) k1(1) b nr])
  note t = track_settled[OF k2 se2]
  have len: "length (m_iblt st2) = length (new_table e)" using i2 by (simp add: i1(3) li0)
  have "m_iblt st2 = fold (update_cells 1) (erase_keys (m_scheduler st2))
                       (replicate (length (new_table e)) zeroEntry)"
    using store_invD(2)[OF wf2] unfolding len .
  then have tab: "m_iblt st2 = fold (update_cells 1) (erase_keys (m_scheduler st2)) (new_table e)"
    using new_table_replicate[of e] by simp
  have c: "clock st0 \<le> clock st2" using i1(4) i2 by simp
  have "run acts st1 = Inr st2 \<and> clock st0 \<le> clock st2 \<and>
           isKnown st2 pub = (clock st2 < clock st0 + maxPubLifetime * 2) \<and>
           live_bit st2 (length (objects st0)) = (clock st2 < clock st0 + maxPubLifetime) \<and>
           (hashPub pub \<in> set (erase_keys (m_scheduler st2))) =
             (clock st2 < clock st0 + maxPubLifetime + maxClockSkew) \<and>
           distinct (erase_keys (m_scheduler st2)) \<and>
           m_iblt st2 = fold (update_cells 1) (erase_keys (m_scheduler st2)) (new_table e)"
    using r c t(1) t(2) t(3) store_invD(3)[OF wf2] tab by blast
  then show ?thesis by (rule exI)
qed

lemma new_example_engine:
  "SyncPubsub_new 129 1 (isExpired (\<lambda>c. 0)) (filterPubs (\<lambda>c. 0)) 0 = Inr example_engine"
  by (simp add: SyncPubsub_new_def IBLT_new_def nEntries_of_1 example_engine_def)

lemma example_engine_ok:
  shows "store_inv example_engine" and "settled example_engine"
    and "length (m_scheduler example_engine) < 2 ^ 32 - 1"
    and "length (objects example_engine) = 0"
    and "length (m_iblt example_engine) div N_HASH \<noteq> 0"
    and "clock example_engine = 0" and "\<And>pub. \<not> isKnown example_engine pub"
proof -
  show "store_inv example_engine" and "settled example_engine"
    by (rule store_inv_SyncPubsub_new[OF new_example_engine])+
  show "length (m_scheduler example_engine) < 2 ^ 32 - 1"
    and "length (objects example_engine) = 0"
    and "length (m_iblt example_engine) div N_HASH \<noteq> 0" and "clock example_engine = 0"
    and "\<And>pub. \<not> isKnown example_engine pub"
    by (simp_all add: new_table_1 N_HASH_def example_engine_def isKnown_def isKnown_hash_def)
qed

text \<open>A publication of \<open>pub_p\<close> at time 0 on a new engine, seen at time 1500.\<close>

theorem publication_lifetime_witness:
  "\<exists>st1 st2.
     SyncPubsub_new 129 1 (isExpired (\<lambda>c. 0)) (filterPubs (\<lambda>c. 0)) 0 = Inr example_engine \<and>
     step (Publish pub_p) example_engine = Inr st1 \<and>
     run [Advance 1500] st1 = Inr st2 \<and> clock st2 = 1500 \<and>
     isKnown st2 pub_p \<and> \<not> live_bit st2 0 \<and>
     hashPub pub_p \<in> set (erase_keys (m_scheduler st2))"
proof -
  note e = example_engine_ok
  obtain st1 where s: "step (Publish pub_p) example_engine = Inr st1"
    using step_succeeds[OF e(1) e(3) e(5)] by (rule exE)
  have r0: "run [] example_engine = Inr example_engine" by simp
  have b0: "timers_below (2 ^ 32 - 1) [] example_engine" by simp
  have ad: "admits (hashPub pub_p) (Publish pub_p) example_engine" using e(7) by simp
  have nr: "\<not> readmitted (hashPub pub_p) [Advance 1500] st1"
    by (simp split: sum.splits)
  note k1 = track_admit[OF e(1) e(2) _ ad s, simplified]
  have c1: "clock st1 = 0" using k1(3) e(6) by simp
  have q1: "length (m_scheduler st1) = 3" using k1(7) e(3) by (simp add: example_engine_def)
  have b: "timers_below (2 ^ 32 - 1) [Advance 1500] st1"
    by (simp add: q1 split: sum.splits)
  from publication_lifetime[OF new_example_engine r0 b0 _ ad s nr b]
  obtain st2 where r: "run [Advance 1500] st1 = Inr st2"
    and k: "isKnown st2 pub_p = (clock st2 < clock example_engine + maxPubLifetime * 2)"
    and l: "live_bit st2 (length (objects example_engine)) =
              (clock st2 < clock example_engine + maxPubLifetime)"
    and i: "(hashPub pub_p \<in> set (erase_keys (m_scheduler st2))) =
             (clock st2 < clock example_engine + maxPubLifetime + maxClockSkew)"
    by auto
  have a2: "advance 1500 st1 = Inr st2" using r by (simp split: sum.splits)
  have bq1: "length (m_scheduler st1) < 2 ^ 32 - 1" by (simp add: q1)
  have c2: "clock st2 = 1500" using store_inv_advance(5)[OF a2 k1(4,5) bq1] c1 by simp
  show ?thesis
    using new_example_engine s r c2 k l i e(4,6)
    by (auto simp: maxPubLifetime_def maxClockSkew_def)
qed

text \<open>
  Without the condition on the digest: \<open>pub_p\<close> is published at time 0 and has left
  the store at time 2500, when \<open>pub_q\<close>, another publication of the same digest, is
  published; \<open>isKnown\<close> of \<open>pub_p\<close> is then true again, more than two lifetimes after
  its admission.
\<close>

theorem isKnown_after_lifetime:
  "\<exists>st1 st2.
     SyncPubsub_new 129 1 (isExpired (\<lambda>c. 0)) (filterPubs (\<lambda>c. 0)) 0 = Inr example_engine \<and>
     step (Publish pub_p) example_engine = Inr st1 \<and>
     run [Advance 2500, Publish pub_q] st1 = Inr st2 \<and> pub_q \<noteq> pub_p \<and>
     clock st2 = 2500 \<and> isKnown st2 pub_p \<and> \<not> 2500 < 0 + maxPubLifetime * 2"
proof -
  note e = example_engine_ok
  obtain st1 where s: "step (Publish pub_p) example_engine = Inr st1"
    using step_succeeds[OF e(1) e(3) e(5)] by (rule exE)
  have ad: "admits (hashPub pub_p) (Publish pub_p) example_engine" using e(7) by simp
  note k1 = track_admit[OF e(1) e(2) _ ad s, simplified]
  have c1: "clock st1 = 0" using k1(3) e(6) by simp
  have q1: "length (m_scheduler st1) = 3" using k1(7) e(3) by (simp add: example_engine_def)
  have bq1: "length (m_scheduler st1) < 2 ^ 32 - 1" by (simp add: q1)
  have n1: "length (m_iblt st1) div N_HASH \<noteq> 0" using e(5) by (simp add: k1(6))
  obtain sa where a: "advance 2500 st1 = Inr sa"
    using advance_succeeds[OF k1(4) bq1] by (rule exE)
  note ia = store_inv_advance[OF a k1(4,5) bq1]
  have ca: "clock sa = 2500" using ia(5) c1 by simp
  have ka: "track pub_p (length (objects example_engine)) (clock example_engine) sa"
    by (rule track_advance[OF a k1(4) k1(1) bq1])
  have nk: "\<not> isKnown sa pub_p"
    using track_settled(1)[OF ka ia(2)] ca e(6) by (simp add: maxPubLifetime_def)
  then have nq: "\<not> isKnown sa pub_q" by (simp add: isKnown_def hashPub_p hashPub_q)
  have na: "length (m_iblt sa) div N_HASH \<noteq> 0" using n1 by (simp add: ia(6))
  let ?sa = "sa\<lparr>m_publications := m_publications sa + 1\<rparr>"
  have "length (m_iblt ?sa) div N_HASH \<noteq> 0" using na by simp
  then obtain st2 where q: "addToActive pub_q True ?sa = Inr (length (objects ?sa), st2)"
    using addToActive_succeeds[of ?sa pub_q True] by blast
  have p: "publish_store pub_q sa = Inr st2" using nq q by (simp add: publish_store_def)
  have r: "run [Advance 2500, Publish pub_q] st1 = Inr st2" using a p by simp
  have "m_hash2pub st2 (hashPub pub_q) = Some (length (objects ?sa))"
    by (simp add: addToActive_fields(3)[OF q])
  then have k2: "isKnown st2 pub_p" by (simp add: isKnown_def isKnown_hash_def hashPub_p hashPub_q)
  have c2: "clock st2 = 2500" using ca by (simp add: addToActive_fields(5)[OF q])
  have n: "pub_q \<noteq> pub_p" by (simp add: pub_p_def pub_q_def)
  show ?thesis
    using new_example_engine s r n c2 k2 by (auto simp: maxPubLifetime_def)
qed

end
